theory Spec2Isabelle
  imports Main "HOL-Library.Word"
begin

section \<open>The free store and the nodes\<close>

text \<open>
  Pointers are addresses; \<open>None\<close> is \<open>nullptr\<close>. Every way a C++ operation can leave
  defined behaviour, or throw, is a value of \<open>fault\<close>: \<open>new\<close> throwing
  \<open>std::bad_alloc\<close>, reading through a null pointer, reading through a pointer to a
  node that is not (or no longer) allocated, indexing an array outside its bounds,
  overflowing an \<open>int\<close>, \<open>std::stoi\<close> throwing \<open>std::invalid_argument\<close> or
  \<open>std::out_of_range\<close>, and a recursion that needs more frames than the call stack has
  room for. A computation that never returns has the value \<open>None\<close>.
\<close>

type_synonym addr = nat

datatype fault =
  BadAlloc | NullPointer | InvalidPointer | OutOfBounds | SignedOverflow | InvalidArgument | OutOfRange
  | StackOverflow

type_synonym 'a res = "(fault + 'a) option"

text \<open>
  \<open>struct Node\<close>: \<open>key_\<close>, \<open>value_\<close>, the array \<open>forward_\<close> (its length is the
  length the constructor allocated) and \<open>node_level_\<close>, whose integer type \<open>'l\<close> differs
  between the classes (\<open>uint8_t\<close> in \<open>XSFSkipList\<close>, \<open>int\<close> in the older \<open>SkipList\<close>).
  A field's trailing underscore is written as a prime: \<open>key'\<close> is \<open>key_\<close>.
\<close>

record ('k, 'v, 'l) Node =
  key' :: 'k
  value' :: 'v
  forward' :: "addr option list"
  node_level' :: 'l

type_synonym ('k, 'v, 'l) heap = "addr \<Rightarrow> ('k, 'v, 'l) Node option"

text \<open>
  The free store: the allocated nodes, the next address \<open>new\<close> hands out (addresses are
  never reused, so a stale pointer is always recognised), and the number of nodes the
  store can still supply before \<open>new\<close> throws.
\<close>

record ('k, 'v, 'l) store =
  cells :: "('k, 'v, 'l) heap"
  next_addr :: addr
  room :: nat

text \<open>\<open>p->forward_[i]\<close>, read and written, for a non-null \<open>p\<close>.\<close>

definition forward_at :: "('k, 'v, 'l) heap \<Rightarrow> addr \<Rightarrow> nat \<Rightarrow> fault + addr option" where
  "forward_at h p i =
     (case h p of
        None \<Rightarrow> Inl InvalidPointer
      | Some n \<Rightarrow> if i < length (forward' n) then Inr (forward' n ! i) else Inl OutOfBounds)"

definition store_forward ::
  "('k, 'v, 'l) heap \<Rightarrow> addr \<Rightarrow> nat \<Rightarrow> addr option \<Rightarrow> fault + ('k, 'v, 'l) heap" where
  "store_forward h p i q =
     (case h p of
        None \<Rightarrow> Inl InvalidPointer
      | Some n \<Rightarrow>
          if i < length (forward' n)
          then Inr (h(p \<mapsto> n\<lparr>forward' := (forward' n)[i := q]\<rparr>))
          else Inl OutOfBounds)"

text \<open>
  \<open>new Node<K, V>(key, value, level)\<close>: the constructor allocates \<open>level + 1\<close> null
  links (the caller computes that length in its own integer type).
\<close>

definition new_Node ::
  "'k \<Rightarrow> 'v \<Rightarrow> 'l \<Rightarrow> nat \<Rightarrow> ('k, 'v, 'l, 'z) store_scheme
     \<Rightarrow> fault + addr \<times> ('k, 'v, 'l, 'z) store_scheme" where
  "new_Node k v level n st =
     (if room st = 0 then Inl BadAlloc
      else Inr (next_addr st,
        st\<lparr>cells := (cells st)(next_addr st \<mapsto>
              \<lparr>key' = k, value' = v, forward' = replicate n None, node_level' = level\<rparr>),
           next_addr := Suc (next_addr st),
           room := room st - 1\<rparr>))"

text \<open>\<open>delete p\<close> for a non-null \<open>p\<close>: the node and its link array are released.\<close>

definition delete_Node ::
  "addr \<Rightarrow> ('k, 'v, 'l, 'z) store_scheme \<Rightarrow> fault + ('k, 'v, 'l, 'z) store_scheme" where
  "delete_Node p st =
     (case cells st p of
        None \<Rightarrow> Inl InvalidPointer
      | Some n \<Rightarrow> Inr (st\<lparr>cells := (cells st)(p := None), room := room st + 1\<rparr>))"

section \<open>The search loops\<close>

text \<open>
  The inner loop of every search:
  \<^verbatim>\<open>while (current->forward_[i] != nullptr && current->forward_[i]->key_ < key)
    current = current->forward_[i];\<close>
\<close>

partial_function (option) advance ::
  "('k::linorder, 'v, 'l) heap \<Rightarrow> 'k \<Rightarrow> nat \<Rightarrow> addr \<Rightarrow> addr res" where
  "advance h key i current =
     (case forward_at h current i of
        Inl e \<Rightarrow> Some (Inl e)
      | Inr None \<Rightarrow> Some (Inr current)
      | Inr (Some nxt) \<Rightarrow>
          (case h nxt of
             None \<Rightarrow> Some (Inl InvalidPointer)
           | Some n \<Rightarrow>
               if key' n < key then advance h key i nxt else Some (Inr current)))"

declare advance.simps [code]

text \<open>
  The outer loop of \<open>get\<close>: \<^verbatim>\<open>for (int i = skip_list_level_; i >= 0; i--)\<close> around the
  inner loop.
\<close>

function search_loop ::
  "('k::linorder, 'v, 'l) heap \<Rightarrow> 'k \<Rightarrow> int \<Rightarrow> addr \<Rightarrow> addr res" where
  "search_loop h key i current =
     (if 0 \<le> i then
        (case advance h key (nat i) current of
           None \<Rightarrow> None
         | Some (Inl e) \<Rightarrow> Some (Inl e)
         | Some (Inr c) \<Rightarrow> search_loop h key (i - 1) c)
      else Some (Inr current))"
  by pat_completeness auto
termination
  by (relation "measure (\<lambda>(h, key, i, current). nat (i + 1))") auto

declare search_loop.simps [simp del]

text \<open>
  The outer loop of \<open>put\<close> and \<open>remove\<close>, which also records \<open>update[i] = current\<close>.
\<close>

function search_update_loop ::
  "('k::linorder, 'v, 'l) heap \<Rightarrow> 'k \<Rightarrow> int \<Rightarrow> addr \<Rightarrow> addr option list
     \<Rightarrow> (addr \<times> addr option list) res" where
  "search_update_loop h key i current update =
     (if 0 \<le> i then
        (case advance h key (nat i) current of
           None \<Rightarrow> None
         | Some (Inl e) \<Rightarrow> Some (Inl e)
         | Some (Inr c) \<Rightarrow>
             if nat i < length update
             then search_update_loop h key (i - 1) c (update[nat i := Some c])
             else Some (Inl OutOfBounds))
      else Some (Inr (current, update)))"
  by pat_completeness auto
termination
  by (relation "measure (\<lambda>(h, key, i, current, update). nat (i + 1))") auto

declare search_update_loop.simps [simp del]

text \<open>
  \<^verbatim>\<open>current != nullptr && current->key_ == key\<close>: the node found, or \<open>None\<close> when
  the test fails.
\<close>

definition match_key :: "('k, 'v, 'l) heap \<Rightarrow> addr option \<Rightarrow> 'k \<Rightarrow> fault + addr option" where
  "match_key h current key =
     (case current of
        None \<Rightarrow> Inr None
      | Some c \<Rightarrow>
          (case h c of
             None \<Rightarrow> Inl InvalidPointer
           | Some n \<Rightarrow> Inr (if key' n = key then Some c else None)))"

text \<open>
  The body of the splicing loop of \<open>put\<close>:
  \<^verbatim>\<open>new_node->forward_[i] = update[i]->forward_[i]; update[i]->forward_[i] = new_node;\<close>
\<close>

definition splice_level ::
  "('k, 'v, 'l) heap \<Rightarrow> addr option list \<Rightarrow> addr \<Rightarrow> nat \<Rightarrow> fault + ('k, 'v, 'l) heap" where
  "splice_level h update new_node i =
     (if i < length update then
        (case update ! i of
           None \<Rightarrow> Inl NullPointer
         | Some p \<Rightarrow>
             (case forward_at h p i of
                Inl e \<Rightarrow> Inl e
              | Inr nxt \<Rightarrow>
                  (case store_forward h new_node i nxt of
                     Inl e \<Rightarrow> Inl e
                   | Inr h' \<Rightarrow> store_forward h' p i (Some new_node))))
      else Inl OutOfBounds)"

text \<open>
  The body of the unlinking loop of \<open>remove\<close>:
  \<^verbatim>\<open>if (update[i]->forward_[i] == current) update[i]->forward_[i] = current->forward_[i];\<close>
\<close>

definition unlink_level ::
  "('k, 'v, 'l) heap \<Rightarrow> addr option list \<Rightarrow> addr \<Rightarrow> nat \<Rightarrow> fault + ('k, 'v, 'l) heap" where
  "unlink_level h update current i =
     (if i < length update then
        (case update ! i of
           None \<Rightarrow> Inl NullPointer
         | Some p \<Rightarrow>
             (case forward_at h p i of
                Inl e \<Rightarrow> Inl e
              | Inr nxt \<Rightarrow>
                  if nxt = Some current then
                    (case forward_at h current i of
                       Inl e \<Rightarrow> Inl e
                     | Inr after \<Rightarrow> store_forward h p i after)
                  else Inr h))
      else Inl OutOfBounds)"

section \<open>XSFSkipList\<close>

text \<open>
  The object's fields, on top of the store it lives in. \<open>gen_\<close> is the seeded
  \<open>std::mt19937\<close> seen through \<open>std::bernoulli_distribution(0.5)\<close>: the sequence of
  outcomes the next calls \<open>distribution_(gen_)\<close> return; each call removes its head.
\<close>

record ('k, 'v) XSFSkipList = "('k, 'v, 8 word) store" +
  max_level' :: "8 word"
  skip_list_level' :: "8 word"
  header' :: addr
  element_count' :: "64 word"
  gen' :: "nat \<Rightarrow> bool"

text \<open>
  \<^verbatim>\<open>while (distribution_(gen_) && k < max_level_) k++;\<close>: the coin is drawn first, so the
  test that ends the loop at the ceiling consumes one outcome too.
\<close>

function get_random_level_loop ::
  "8 word \<Rightarrow> (nat \<Rightarrow> bool) \<Rightarrow> 8 word \<Rightarrow> 8 word \<times> (nat \<Rightarrow> bool)" where
  "get_random_level_loop max_level g k =
     (if g 0 \<and> k < max_level
      then get_random_level_loop max_level (\<lambda>n. g (Suc n)) (k + 1)
      else (k, \<lambda>n. g (Suc n)))"
  by pat_completeness auto
termination
proof (relation "measure (\<lambda>(max_level, g, k). unat max_level - unat k)")
  show "wf (measure (\<lambda>(max_level :: 8 word, g :: nat \<Rightarrow> bool, k :: 8 word). unat max_level - unat k))"
    by simp
next
  fix max_level k :: "8 word" and g :: "nat \<Rightarrow> bool"
  assume "g 0 \<and> k < max_level"
  then have "unat k < unat max_level" by (simp add: word_less_nat_alt)
  moreover have "unat max_level < 256" using unsigned_less [of max_level] by simp
  moreover have "unat (k + 1) = (unat k + 1) mod 256" by (simp add: unat_word_ariths)
  ultimately show "((max_level, \<lambda>n. g (Suc n), k + 1), (max_level, g, k))
      \<in> measure (\<lambda>(max_level, g, k). unat max_level - unat k)"
    by simp
qed

declare get_random_level_loop.simps [simp del]

definition get_random_level ::
  "('k, 'v) XSFSkipList \<Rightarrow> 8 word \<times> ('k, 'v) XSFSkipList" where
  "get_random_level s =
     (case get_random_level_loop (max_level' s) (gen' s) 0 of
        (k, g) \<Rightarrow> (k, s\<lparr>gen' := g\<rparr>))"

text \<open>
  A mutating member function ends in one of three ways: it returns (\<open>Inr\<close> the new
  state), it leaves through a fault (\<open>Inl\<close>, with the state at that moment: what a
  caller catching \<open>std::bad_alloc\<close> finds), or it never returns (\<open>None\<close>).
\<close>

type_synonym 's outcome = "(fault \<times> 's + 's) option"

text \<open>
  The constructor. \<open>mt19937\<close> stands for the library's seeded engine, \<open>free\<close> for the
  number of nodes the store can hold, \<open>k\<close> and \<open>v\<close> for the default-initialised
  \<^verbatim>\<open>K k; V v;\<close> copied into the header.
\<close>

definition XSFSkipList ::
  "(32 word \<Rightarrow> nat \<Rightarrow> bool) \<Rightarrow> nat \<Rightarrow> 'k \<Rightarrow> 'v \<Rightarrow> 8 word \<Rightarrow> 32 word
     \<Rightarrow> fault + ('k, 'v) XSFSkipList" where
  "XSFSkipList mt19937 free k v max_level seed =
     (case new_Node k v max_level (unat max_level + 1)
             \<lparr>cells = Map.empty, next_addr = 0, room = free\<rparr> of
        Inl e \<Rightarrow> Inl e
      | Inr (p, st) \<Rightarrow>
          Inr \<lparr>cells = cells st, next_addr = next_addr st, room = room st,
               max_level' = max_level, skip_list_level' = 0, header' = p,
               element_count' = 0, gen' = mt19937 seed\<rparr>)"

text \<open>
  \<^verbatim>\<open>for (uint8_t i = skip_list_level_ + 1; i < new_node_level + 1; i++) update[i] = header_;\<close>
  The counter is a \<open>uint8_t\<close> and wraps; the bound is computed in \<open>int\<close> and does not.
\<close>

partial_function (option) raise_update_loop ::
  "addr \<Rightarrow> 8 word \<Rightarrow> 8 word \<Rightarrow> addr option list \<Rightarrow> addr option list res" where
  "raise_update_loop header new_node_level i update =
     (if uint i < uint new_node_level + 1 then
        (if unat i < length update
         then raise_update_loop header new_node_level (i + 1) (update[unat i := Some header])
         else Some (Inl OutOfBounds))
      else Some (Inr update))"

declare raise_update_loop.simps [code]

text \<open>\<^verbatim>\<open>for (uint8_t i = 0; i <= new_node_level; i++)\<close> around the splicing body.\<close>

partial_function (option) splice_loop ::
  "('k, 'v, 'l) heap \<Rightarrow> addr option list \<Rightarrow> addr \<Rightarrow> 8 word \<Rightarrow> 8 word
     \<Rightarrow> ('k, 'v, 'l) heap res" where
  "splice_loop h update new_node new_node_level i =
     (if i \<le> new_node_level then
        (case splice_level h update new_node (unat i) of
           Inl e \<Rightarrow> Some (Inl e)
         | Inr h' \<Rightarrow> splice_loop h' update new_node new_node_level (i + 1))
      else Some (Inr h))"

declare splice_loop.simps [code]

text \<open>The branch of \<open>put\<close> for a key that is not in the list.\<close>

definition insert_node ::
  "'k \<Rightarrow> 'v \<Rightarrow> addr option list \<Rightarrow> ('k, 'v) XSFSkipList \<Rightarrow> ('k, 'v) XSFSkipList outcome" where
  "insert_node key val update s =
     (case get_random_level s of
        (new_node_level, s1) \<Rightarrow>
          (case (if skip_list_level' s1 < new_node_level
                 then map_option (map_sum id (\<lambda>u. (u, s1\<lparr>skip_list_level' := new_node_level\<rparr>)))
                        (raise_update_loop (header' s1) new_node_level
                           (skip_list_level' s1 + 1) update)
                 else Some (Inr (update, s1))) of
             None \<Rightarrow> None
           | Some (Inl e) \<Rightarrow> Some (Inl (e, s1))
           | Some (Inr (update', s2)) \<Rightarrow>
               (case new_Node key val new_node_level (unat new_node_level + 1) s2 of
                  Inl e \<Rightarrow> Some (Inl (e, s2))
                | Inr (new_node, s3) \<Rightarrow>
                    (case splice_loop (cells s3) update' new_node new_node_level 0 of
                       None \<Rightarrow> None
                     | Some (Inl e) \<Rightarrow> Some (Inl (e, s3))
                     | Some (Inr h) \<Rightarrow>
                         Some (Inr (s3\<lparr>cells := h,
                                       element_count' := element_count' s3 + 1\<rparr>))))))"

definition put ::
  "'k::linorder \<Rightarrow> 'v \<Rightarrow> ('k, 'v) XSFSkipList \<Rightarrow> ('k, 'v) XSFSkipList outcome" where
  "put key val s =
     (case search_update_loop (cells s) key (uint (skip_list_level' s)) (header' s)
             (replicate (unat (max_level' s) + 1) None) of
        None \<Rightarrow> None
      | Some (Inl e) \<Rightarrow> Some (Inl (e, s))
      | Some (Inr (current, update)) \<Rightarrow>
          (case forward_at (cells s) current 0 of
             Inl e \<Rightarrow> Some (Inl (e, s))
           | Inr current' \<Rightarrow>
               (case match_key (cells s) current' key of
                  Inl e \<Rightarrow> Some (Inl (e, s))
                | Inr (Some c) \<Rightarrow>
                    Some (Inr (s\<lparr>cells := (cells s)(c := map_option (value'_update (\<lambda>_. val)) (cells s c))\<rparr>))
                | Inr None \<Rightarrow> insert_node key val update s)))"

definition get :: "'k::linorder \<Rightarrow> ('k, 'v) XSFSkipList \<Rightarrow> 'v option res" where
  "get key s =
     (case search_loop (cells s) key (uint (skip_list_level' s)) (header' s) of
        None \<Rightarrow> None
      | Some (Inl e) \<Rightarrow> Some (Inl e)
      | Some (Inr current) \<Rightarrow>
          (case forward_at (cells s) current 0 of
             Inl e \<Rightarrow> Some (Inl e)
           | Inr current' \<Rightarrow>
               (case match_key (cells s) current' key of
                  Inl e \<Rightarrow> Some (Inl e)
                | Inr (Some c) \<Rightarrow> Some (Inr (map_option value' (cells s c)))
                | Inr None \<Rightarrow> Some (Inr None))))"

text \<open>\<^verbatim>\<open>for (uint8_t i = 0; i <= skip_list_level_; i++)\<close> around the unlinking body.\<close>

partial_function (option) unlink_loop ::
  "('k, 'v, 'l) heap \<Rightarrow> addr option list \<Rightarrow> addr \<Rightarrow> 8 word \<Rightarrow> 8 word
     \<Rightarrow> ('k, 'v, 'l) heap res" where
  "unlink_loop h update current skip_list_level i =
     (if i \<le> skip_list_level then
        (case unlink_level h update current (unat i) of
           Inl e \<Rightarrow> Some (Inl e)
         | Inr h' \<Rightarrow> unlink_loop h' update current skip_list_level (i + 1))
      else Some (Inr h))"

declare unlink_loop.simps [code]

text \<open>
  \<^verbatim>\<open>while (skip_list_level_ > 0 && header_->forward_[skip_list_level_] == nullptr)
    skip_list_level_--;\<close>
\<close>

function lower_level :: "('k, 'v, 'l) heap \<Rightarrow> addr \<Rightarrow> 8 word \<Rightarrow> fault + 8 word" where
  "lower_level h header skip_list_level =
     (if 0 < skip_list_level then
        (case forward_at h header (unat skip_list_level) of
           Inl e \<Rightarrow> Inl e
         | Inr None \<Rightarrow> lower_level h header (skip_list_level - 1)
         | Inr (Some n) \<Rightarrow> Inr skip_list_level)
      else Inr skip_list_level)"
  by pat_completeness auto
termination
  by (relation "measure (\<lambda>(h, header, skip_list_level). unat skip_list_level)")
     (simp_all add: measure_unat)

declare lower_level.simps [simp del]

definition remove :: "'k::linorder \<Rightarrow> ('k, 'v) XSFSkipList \<Rightarrow> ('k, 'v) XSFSkipList outcome" where
  "remove key s =
     (case search_update_loop (cells s) key (uint (skip_list_level' s)) (header' s)
             (replicate (unat (max_level' s) + 1) None) of
        None \<Rightarrow> None
      | Some (Inl e) \<Rightarrow> Some (Inl (e, s))
      | Some (Inr (current, update)) \<Rightarrow>
          (case forward_at (cells s) current 0 of
             Inl e \<Rightarrow> Some (Inl (e, s))
           | Inr current' \<Rightarrow>
               (case match_key (cells s) current' key of
                  Inl e \<Rightarrow> Some (Inl (e, s))
                | Inr None \<Rightarrow> Some (Inr s)
                | Inr (Some c) \<Rightarrow>
                    (case unlink_loop (cells s) update c (skip_list_level' s) 0 of
                       None \<Rightarrow> None
                     | Some (Inl e) \<Rightarrow> Some (Inl (e, s))
                     | Some (Inr h) \<Rightarrow>
                         (case lower_level h (header' s) (skip_list_level' s) of
                            Inl e \<Rightarrow> Some (Inl (e, s\<lparr>cells := h\<rparr>))
                          | Inr l \<Rightarrow>
                              (case delete_Node c (s\<lparr>cells := h, skip_list_level' := l\<rparr>) of
                                 Inl e \<Rightarrow> Some (Inl (e, s\<lparr>cells := h, skip_list_level' := l\<rparr>))
                               | Inr s' \<Rightarrow>
                                   Some (Inr (s'\<lparr>element_count' := element_count' s' - 1\<rparr>))))))))"

definition size_of :: "('k, 'v) XSFSkipList \<Rightarrow> 64 word" where
  "size_of s = element_count' s"

text \<open>
  The level-0 chain, read as a client with access to the links would read it: the keys
  met from \<open>header_->forward_[0]\<close> along \<open>forward_[0]\<close> until \<open>nullptr\<close>.
\<close>

partial_function (option) level0_from ::
  "('k, 'v, 'l) heap \<Rightarrow> addr option \<Rightarrow> 'k list \<Rightarrow> 'k list res" where
  "level0_from h current keys =
     (case current of
        None \<Rightarrow> Some (Inr keys)
      | Some c \<Rightarrow>
          (case h c of
             None \<Rightarrow> Some (Inl InvalidPointer)
           | Some n \<Rightarrow>
               (case forward_at h c 0 of
                  Inl e \<Rightarrow> Some (Inl e)
                | Inr nxt \<Rightarrow> level0_from h nxt (keys @ [key' n]))))"

declare level0_from.simps [code]

definition level0_keys :: "('k, 'v) XSFSkipList \<Rightarrow> 'k list res" where
  "level0_keys s =
     (case forward_at (cells s) (header' s) 0 of
        Inl e \<Rightarrow> Some (Inl e)
      | Inr first \<Rightarrow> level0_from (cells s) first [])"

text \<open>How a call ended: the fault it left through with the state it left, or the state it returned.\<close>

definition thrown :: "'s outcome \<Rightarrow> (fault \<times> 's) option" where
  "thrown r = (case r of Some (Inl x) \<Rightarrow> Some x | Some (Inr s) \<Rightarrow> None | None \<Rightarrow> None)"

definition returned :: "'s outcome \<Rightarrow> 's option" where
  "returned r = (case r of Some (Inr s) \<Rightarrow> Some s | Some (Inl x) \<Rightarrow> None | None \<Rightarrow> None)"

section \<open>Sequences of operations\<close>

text \<open>
  A client's calls, run in order from a state. The run stops at the first call that
  throws or leaves defined behaviour, and has no result when a call never returns.
  \<open>get\<close> changes nothing, so the state passes through it.
\<close>

datatype ('k, 'v) operation = Put 'k 'v | Get 'k | Remove 'k

fun run ::
  "('k::linorder, 'v) operation list \<Rightarrow> ('k, 'v) XSFSkipList \<Rightarrow> ('k, 'v) XSFSkipList outcome" where
  "run [] s = Some (Inr s)"
| "run (Put k v # ops) s =
     (case put k v s of
        None \<Rightarrow> None
      | Some (Inl e) \<Rightarrow> Some (Inl e)
      | Some (Inr s') \<Rightarrow> run ops s')"
| "run (Get k # ops) s =
     (case get k s of
        None \<Rightarrow> None
      | Some (Inl e) \<Rightarrow> Some (Inl (e, s))
      | Some (Inr v) \<Rightarrow> run ops s)"
| "run (Remove k # ops) s =
     (case remove k s of
        None \<Rightarrow> None
      | Some (Inl e) \<Rightarrow> Some (Inl e)
      | Some (Inr s') \<Rightarrow> run ops s')"

text \<open>
  What the specification expects of \<open>get key\<close>: going back from the most recent
  operation, the value of the first \<open>put key v\<close> met, unless a \<open>remove key\<close> is met
  before it. The list is the history, most recent operation first.
\<close>

fun latest :: "'k \<Rightarrow> ('k, 'v) operation list \<Rightarrow> 'v option" where
  "latest key [] = None"
| "latest key (Put k v # earlier) = (if k = key then Some v else latest key earlier)"
| "latest key (Remove k # earlier) = (if k = key then None else latest key earlier)"
| "latest key (Get k # earlier) = latest key earlier"

section \<open>Engines for the examples\<close>

text \<open>
  Two outcome sequences that stand for a seeded engine where a theorem is instantiated:
  one whose first outcome is heads and every later one tails, and one that repeats heads,
  heads, tails.
\<close>

definition one_head :: "32 word \<Rightarrow> nat \<Rightarrow> bool" where
  "one_head seed n = (n = 0)"

definition two_heads_in_three :: "32 word \<Rightarrow> nat \<Rightarrow> bool" where
  "two_heads_in_three seed n = (n mod 3 \<noteq> 2)"

section \<open>The list a heap represents\<close>

text \<open>
  The definitions below are not code: they describe the heap of a skip list by the list
  \<open>L\<close> of the addresses on its level-0 chain, and state what the loops compute.
\<close>

definition len :: "('k, 'v, 'l) heap \<Rightarrow> addr \<Rightarrow> nat" where
  "len h a = (case h a of None \<Rightarrow> 0 | Some n \<Rightarrow> length (forward' n))"

definition nkey :: "('k, 'v, 'l) heap \<Rightarrow> addr \<Rightarrow> 'k" where
  "nkey h a = key' (the (h a))"

definition nval :: "('k, 'v, 'l) heap \<Rightarrow> addr \<Rightarrow> 'v" where
  "nval h a = value' (the (h a))"

fun linked :: "('k, 'v, 'l) heap \<Rightarrow> nat \<Rightarrow> addr list \<Rightarrow> bool" where
  "linked h i [] = True"
| "linked h i (a # ys) =
     ((i < len h a \<longrightarrow> forward_at h a i = Inr (find (\<lambda>b. i < len h b) ys)) \<and> linked h i ys)"

definition pred_at :: "('k::linorder, 'v, 'l) heap \<Rightarrow> addr \<Rightarrow> addr list \<Rightarrow> 'k \<Rightarrow> nat \<Rightarrow> addr" where
  "pred_at h hdr L key i =
     last (hdr # filter (\<lambda>b. i < len h b) (takeWhile (\<lambda>b. nkey h b < key) L))"

definition sl_inv ::
  "('k::linorder, 'v, 'l) heap \<Rightarrow> addr \<Rightarrow> nat \<Rightarrow> nat \<Rightarrow> addr list \<Rightarrow> bool" where
  "sl_inv h hdr ml lvl L \<longleftrightarrow>
     distinct (hdr # L) \<and> dom h = set (hdr # L) \<and> sorted_wrt (<) (map (nkey h) L) \<and>
     len h hdr = Suc ml \<and> (\<forall>a\<in>set L. 0 < len h a \<and> len h a \<le> Suc lvl) \<and> lvl \<le> ml \<and>
     (\<forall>i. linked h i (hdr # L))"

definition trail ::
  "('k::linorder, 'v, 'l) heap \<Rightarrow> addr \<Rightarrow> addr list \<Rightarrow> 'k \<Rightarrow> nat \<Rightarrow> nat \<Rightarrow> addr option list" where
  "trail h hdr L key t n = map (\<lambda>j. if j \<le> t then Some (pred_at h hdr L key j) else None) [0..<n]"

definition hit :: "('k::linorder, 'v, 'l) heap \<Rightarrow> addr list \<Rightarrow> 'k \<Rightarrow> addr option" where
  "hit h L key =
     (case dropWhile (\<lambda>b. nkey h b < key) L of
        [] \<Rightarrow> None
      | b # bs \<Rightarrow> if nkey h b = key then Some b else None)"

definition abs_map :: "('k, 'v, 'l) heap \<Rightarrow> addr list \<Rightarrow> 'k \<Rightarrow> 'v option" where
  "abs_map h L = map_of (map (\<lambda>a. (nkey h a, nval h a)) L)"

definition data :: "('k, 'v, 'l) heap \<Rightarrow> addr \<Rightarrow> ('k \<times> 'v \<times> nat \<times> 'l) option" where
  "data h a = map_option (\<lambda>n. (key' n, value' n, length (forward' n), node_level' n)) (h a)"

definition inserted :: "('k::linorder, 'v, 'l) heap \<Rightarrow> addr list \<Rightarrow> 'k \<Rightarrow> addr \<Rightarrow> addr list" where
  "inserted h L key new =
     takeWhile (\<lambda>b. nkey h b < key) L @ new # dropWhile (\<lambda>b. nkey h b < key) L"

definition removed :: "('k::linorder, 'v, 'l) heap \<Rightarrow> addr list \<Rightarrow> 'k \<Rightarrow> addr list" where
  "removed h L key =
     takeWhile (\<lambda>b. nkey h b < key) L @ tl (dropWhile (\<lambda>b. nkey h b < key) L)"

text \<open>A loop over the levels \<open>i, i + 1, \<dots>\<close>, \<open>n\<close> of them, as both classes write it.\<close>

fun levels_from ::
  "('h \<Rightarrow> nat \<Rightarrow> fault + 'h) \<Rightarrow> nat \<Rightarrow> nat \<Rightarrow> 'h \<Rightarrow> fault + 'h" where
  "levels_from f 0 i g = Inr g"
| "levels_from f (Suc n) i g =
     (case f g i of Inl e \<Rightarrow> Inl e | Inr g' \<Rightarrow> levels_from f n (Suc i) g')"

definition relinked ::
  "('k, 'v, 'l) heap \<Rightarrow> addr list \<Rightarrow> nat \<Rightarrow> ('k, 'v, 'l) heap \<Rightarrow> bool" where
  "relinked h0 xs i g \<longleftrightarrow>
     data g = data h0 \<and> (\<forall>j<i. linked g j xs) \<and> (\<forall>j\<ge>i. \<forall>a. forward_at g a j = forward_at h0 a j)"

fun lowered :: "('k, 'v, 'l) heap \<Rightarrow> addr list \<Rightarrow> nat \<Rightarrow> nat" where
  "lowered h L 0 = 0"
| "lowered h L (Suc l) = (if find (\<lambda>b. Suc l < len h b) L = None then lowered h L l else Suc l)"

definition xsf_inv :: "('k::linorder, 'v) XSFSkipList \<Rightarrow> addr list \<Rightarrow> bool" where
  "xsf_inv s L \<longleftrightarrow>
     sl_inv (cells s) (header' s) (unat (max_level' s)) (unat (skip_list_level' s)) L \<and>
     unat (skip_list_level' s) < 255 \<and>
     element_count' s = of_nat (length L) \<and>
     (\<forall>a n. cells s a = Some n \<longrightarrow> length (forward' n) = Suc (unat (node_level' n))) \<and>
     (\<forall>a\<in>dom (cells s). a < next_addr s)"

definition raised :: "('k, 'v) XSFSkipList \<Rightarrow> 8 word \<Rightarrow> ('k, 'v) XSFSkipList" where
  "raised s nl = s\<lparr>skip_list_level' := max (skip_list_level' s) nl\<rparr>"

fun effect :: "('k, 'v) operation \<Rightarrow> ('k \<rightharpoonup> 'v) \<Rightarrow> ('k \<rightharpoonup> 'v)" where
  "effect (Put k v) m = m(k \<mapsto> v)"
| "effect (Get k) m = m"
| "effect (Remove k) m = m(k := None)"

text \<open>
  The levels the next \<open>n\<close> calls of \<open>get_random_level\<close> return, each call continuing in
  the state the one before left.
\<close>

fun next_levels :: "nat \<Rightarrow> ('k, 'v) XSFSkipList \<Rightarrow> 8 word list" where
  "next_levels 0 s = []"
| "next_levels (Suc n) s = (case get_random_level s of (k, s') \<Rightarrow> k # next_levels n s')"

text \<open>
  The same heap and the same list with another placeholder in the header: what the
  constructor would have built had \<^verbatim>\<open>K k; V v;\<close> held \<open>k\<close> and \<open>v\<close>.
\<close>

definition reheap :: "'k \<Rightarrow> 'v \<Rightarrow> addr \<Rightarrow> ('k, 'v, 'l) heap \<Rightarrow> ('k, 'v, 'l) heap" where
  "reheap k v hdr h = h(hdr := map_option (\<lambda>n. n\<lparr>key' := k, value' := v\<rparr>) (h hdr))"

definition rehead :: "'k \<Rightarrow> 'v \<Rightarrow> ('k, 'v) XSFSkipList \<Rightarrow> ('k, 'v) XSFSkipList" where
  "rehead k v s = s\<lparr>cells := reheap k v (header' s) (cells s)\<rparr>"

text \<open>
  \<^verbatim>\<open>void clear(Node<K, V>* node) {
    if (node->forward_[0] != nullptr) clear(node->forward_[0]);
    delete node;
  }\<close>
  The call on the next node comes before \<open>delete node\<close>, so it is no tail call: every
  activation keeps its frame on the call stack until all the nodes behind it are
  released. \<open>stack\<close> is the number of activations of \<open>clear\<close> the call stack still has room
  for; an activation that finds no room is the fault \<open>StackOverflow\<close>. Besides the store,
  the result lists the nodes in the order they were deleted.
\<close>

fun clear ::
  "nat \<Rightarrow> addr \<Rightarrow> ('k, 'v, 'l, 'z) store_scheme
     \<Rightarrow> fault + addr list \<times> ('k, 'v, 'l, 'z) store_scheme" where
  "clear 0 node st = Inl StackOverflow"
| "clear (Suc stack) node st =
     (case forward_at (cells st) node 0 of
        Inl e \<Rightarrow> Inl e
      | Inr nxt \<Rightarrow>
          (case (case nxt of
                   None \<Rightarrow> Inr ([], st)
                 | Some q \<Rightarrow> clear stack q st) of
             Inl e \<Rightarrow> Inl e
           | Inr (freed, st') \<Rightarrow>
               (case delete_Node node st' of
                  Inl e \<Rightarrow> Inl e
                | Inr st'' \<Rightarrow> Inr (freed @ [node], st''))))"

text \<open>
  \<^verbatim>\<open>~XSFSkipList() {
    if (header_->forward_[0] != nullptr) clear(header_->forward_[0]);
    delete header_;
  }\<close>
  run with room for \<open>stack\<close> activations of \<open>clear\<close> on the call stack.
\<close>

definition XSFSkipList_destructor ::
  "nat \<Rightarrow> ('k, 'v) XSFSkipList \<Rightarrow> fault + addr list \<times> ('k, 'v) XSFSkipList" where
  "XSFSkipList_destructor stack s =
     (case forward_at (cells s) (header' s) 0 of
        Inl e \<Rightarrow> Inl e
      | Inr nxt \<Rightarrow>
          (case (case nxt of
                   None \<Rightarrow> Inr ([], s)
                 | Some q \<Rightarrow> clear stack q s) of
             Inl e \<Rightarrow> Inl e
           | Inr (freed, s') \<Rightarrow>
               (case delete_Node (header' s') s' of
                  Inl e \<Rightarrow> Inl e
                | Inr s'' \<Rightarrow> Inr (freed @ [header' s'], s''))))"

section \<open>The mutex\<close>

text \<open>
  What a call of a member function of \<open>XSFSkipList\<close> does with \<open>mutex_\<close>, in the order it
  does it: acquire it, release it, or touch the structure (read or write a link, a level
  or the element count). \<open>put\<close> and \<open>remove\<close> open with
  \<^verbatim>\<open>std::lock_guard<std::mutex> lock(mutex_);\<close>, which acquires the mutex and releases
  it when the function is left, by \<open>return\<close> or by an exception. \<open>get\<close> walks the links
  and \<open>size\<close> returns \<open>element_count_\<close> with no mention of \<open>mutex_\<close>.
\<close>

datatype event = Acquire | Release | Touch

datatype member = Member_put | Member_get | Member_remove | Member_size

fun events :: "member \<Rightarrow> event list" where
  "events Member_put = [Acquire, Touch, Release]"
| "events Member_get = [Touch]"
| "events Member_remove = [Acquire, Touch, Release]"
| "events Member_size = [Touch]"

text \<open>
  Whether every touch in a sequence of events happens while the calling thread holds the
  mutex; \<open>held\<close> says whether it holds it at the start.
\<close>

fun guarded :: "bool \<Rightarrow> event list \<Rightarrow> bool" where
  "guarded held [] = True"
| "guarded held (Acquire # es) = guarded True es"
| "guarded held (Release # es) = guarded False es"
| "guarded held (Touch # es) = (held \<and> guarded held es)"

section \<open>The older SkipList and its store file\<close>
























section \<open>Text of the store file\<close>

















section \<open>What the store file says\<close>











section \<open>A process for the examples\<close>




section \<open>The search, splice and unlink loops on a well-formed heap\<close>

lemma len_pos_dom: "i < len h a \<Longrightarrow> \<exists>n. h a = Some n \<and> i < length (forward' n)"
  by (auto simp: len_def split: option.splits)

lemma linked_append: "linked h i (xs @ ys) \<Longrightarrow> linked h i ys"
  by (induction xs) auto

lemma find_invisible: "\<not> i < len h b \<Longrightarrow> find (\<lambda>b. i < len h b) (b # ys) = find (\<lambda>b. i < len h b) ys"
  by simp

lemma advance_linked:
  assumes "linked h i (cur # ys)" "i < len h cur" "set ys \<subseteq> dom h"
    "sorted_wrt (<) (map (nkey h) ys)"
  shows "advance h key i cur =
     Some (Inr (last (cur # filter (\<lambda>b. i < len h b) (takeWhile (\<lambda>b. nkey h b < key) ys))))"
  using assms
proof (induction ys arbitrary: cur)
  case Nil
  then show ?case
    by (subst advance.simps) simp
next
  case (Cons b ys)
  show ?case
  proof (cases "i < len h b")
    case True
    from Cons.prems obtain n where n: "h b = Some n" by auto
    have fw: "forward_at h cur i = Inr (Some b)" using Cons.prems True by simp
    show ?thesis
    proof (cases "key' n < key")
      case k: True
      have "advance h key i cur = advance h key i b"
        by (subst advance.simps) (simp add: fw n k)
      also have "\<dots> = Some (Inr (last (b # filter (\<lambda>b. i < len h b) (takeWhile (\<lambda>b. nkey h b < key) ys))))"
        using Cons.prems True by (intro Cons.IH) auto
      finally show ?thesis using True k n by (simp add: nkey_def)
    next
      case k: False
      have "advance h key i cur = Some (Inr cur)"
        by (subst advance.simps) (simp add: fw n k)
      then show ?thesis using k n by (simp add: nkey_def)
    qed
  next
    case False
    have l: "linked h i (cur # ys)" using Cons.prems False by simp
    have IH: "advance h key i cur = Some (Inr (last (cur # filter (\<lambda>b. i < len h b) (takeWhile (\<lambda>b. nkey h b < key) ys))))"
      using Cons.prems l by (intro Cons.IH) auto
    show ?thesis
    proof (cases "nkey h b < key")
      case True
      then show ?thesis using IH False by simp
    next
      case k: False
      have "takeWhile (\<lambda>b. nkey h b < key) ys = []"
      proof (cases ys)
        case Nil then show ?thesis by simp
      next
        case (Cons c cs)
        then have "nkey h b < nkey h c" using Cons.prems(4) by simp
        then show ?thesis using k Cons by auto
      qed
      then show ?thesis using IH k by simp
    qed
  qed
qed

lemma pred_at_mem: "pred_at h hdr L key i \<in> set (hdr # takeWhile (\<lambda>b. nkey h b < key) L)"
proof -
  have "last (hdr # filter (\<lambda>b. i < len h b) (takeWhile (\<lambda>b. nkey h b < key) L))
      \<in> set (hdr # filter (\<lambda>b. i < len h b) (takeWhile (\<lambda>b. nkey h b < key) L))"
    by (rule last_in_set) simp
  then show ?thesis unfolding pred_at_def by auto
qed

lemma pred_at_mem': "pred_at h hdr L key i \<in> set (hdr # L)"
  using pred_at_mem [of h hdr L key i] by (auto dest: set_takeWhileD)

lemma pred_at_top:
  assumes "\<forall>a\<in>set L. len h a \<le> i"
  shows "pred_at h hdr L key i = hdr"
proof -
  have "filter (\<lambda>b. i < len h b) (takeWhile (\<lambda>b. nkey h b < key) L) = []"
    using assms by (auto simp: filter_empty_conv dest!: set_takeWhileD)
  then show ?thesis by (simp add: pred_at_def)
qed

lemma pred_at_len:
  assumes "i < len h hdr"
  shows "i < len h (pred_at h hdr L key i)"
proof (cases "filter (\<lambda>b. i < len h b) (takeWhile (\<lambda>b. nkey h b < key) L) = []")
  case True
  then show ?thesis using assms by (simp add: pred_at_def)
next
  case False
  then have "pred_at h hdr L key i = last (filter (\<lambda>b. i < len h b) (takeWhile (\<lambda>b. nkey h b < key) L))"
    by (simp add: pred_at_def)
  moreover have "last (filter (\<lambda>b. i < len h b) (takeWhile (\<lambda>b. nkey h b < key) L))
     \<in> set (filter (\<lambda>b. i < len h b) (takeWhile (\<lambda>b. nkey h b < key) L))"
    using False by (rule last_in_set)
  ultimately show ?thesis by simp
qed

lemma last_filter_split:
  "filter P xs \<noteq> [] \<Longrightarrow>
     \<exists>us vs. xs = us @ last (filter P xs) # vs \<and> (\<forall>b\<in>set vs. \<not> P b) \<and> P (last (filter P xs))"
proof (induction xs rule: rev_induct)
  case Nil
  then show ?case by simp
next
  case (snoc x xs)
  show ?case
  proof (cases "P x")
    case True
    then show ?thesis by (rule_tac x = xs in exI, rule_tac x = "[]" in exI) simp
  next
    case False
    with snoc obtain us vs where "xs = us @ last (filter P xs) # vs" "\<forall>b\<in>set vs. \<not> P b"
      "P (last (filter P xs))" by auto
    then show ?thesis using False
      by (rule_tac x = us in exI, rule_tac x = "vs @ [x]" in exI) auto
  qed
qed

text \<open>The list after the predecessor at level i holds no key below the searched one at that level.\<close>

lemma pred_at_split:
  "\<exists>xs ys. hdr # takeWhile (\<lambda>b. nkey h b < key) L = xs @ pred_at h hdr L key i # ys \<and>
           (\<forall>b\<in>set ys. \<not> i < len h b)"
proof (cases "filter (\<lambda>b. i < len h b) (takeWhile (\<lambda>b. nkey h b < key) L) = []")
  case True
  then have "pred_at h hdr L key i = hdr" by (simp add: pred_at_def)
  moreover have "\<forall>b\<in>set (takeWhile (\<lambda>b. nkey h b < key) L). \<not> i < len h b"
    using True by (auto simp: filter_empty_conv)
  ultimately show ?thesis
    by (rule_tac x = "[]" in exI, rule_tac x = "takeWhile (\<lambda>b. nkey h b < key) L" in exI) auto
next
  case False
  let ?T = "takeWhile (\<lambda>b. nkey h b < key) L"
  let ?F = "filter (\<lambda>b. i < len h b) ?T"
  have p: "pred_at h hdr L key i = last ?F" using False by (simp add: pred_at_def)
  from last_filter_split [OF False]
  obtain us vs where T: "?T = us @ last ?F # vs" and vs: "\<forall>b\<in>set vs. \<not> i < len h b"
    by blast
  show ?thesis
    by (rule_tac x = "hdr # us" in exI, rule_tac x = vs in exI) (use p T vs in auto)
qed

lemma pred_at_len_Suc:
  assumes "i < len h hdr"
  shows "i < len h (pred_at h hdr L key (Suc i))"
proof (cases "filter (\<lambda>b. Suc i < len h b) (takeWhile (\<lambda>b. nkey h b < key) L) = []")
  case True
  then show ?thesis using assms by (simp add: pred_at_def)
next
  case False
  from last_filter_split [OF False] show ?thesis using False by (auto simp: pred_at_def)
qed

lemma takeWhile_dropWhile_Nil: "takeWhile P (dropWhile P xs) = []"
  by (induction xs) auto

lemma advance_pred:
  assumes inv: "sl_inv h hdr ml lvl L" and i: "i \<le> ml"
  shows "advance h key i (pred_at h hdr L key (Suc i)) = Some (Inr (pred_at h hdr L key i))"
proof -
  let ?P = "\<lambda>b. nkey h b < key"
  let ?T = "takeWhile ?P L" and ?D = "dropWhile ?P L"
  let ?c = "pred_at h hdr L key (Suc i)"
  let ?Q = "\<lambda>b. i < len h b"
  from pred_at_split [of hdr h key L "Suc i"]
  obtain xs ys where sp: "hdr # ?T = xs @ ?c # ys" and ys: "\<forall>b\<in>set ys. \<not> Suc i < len h b"
    by blast
  have L: "hdr # L = xs @ ?c # (ys @ ?D)"
    using sp by (metis append.assoc append_Cons takeWhile_dropWhile_id)
  have hd: "i < len h hdr" using inv i by (simp add: sl_inv_def)
  have c: "i < len h ?c" using hd by (rule pred_at_len_Suc)
  have lk: "linked h i (?c # (ys @ ?D))"
    using inv L by (metis linked_append sl_inv_def)
  have dom: "set (ys @ ?D) \<subseteq> dom h"
  proof -
    have "set (ys @ ?D) \<subseteq> set (hdr # L)" unfolding L by auto
    then show ?thesis using inv by (simp add: sl_inv_def)
  qed
  have srt: "sorted_wrt (<) (map (nkey h) (ys @ ?D))"
  proof (cases xs)
    case Nil
    then have "L = ys @ ?D" using L by simp
    then show ?thesis using inv by (metis sl_inv_def)
  next
    case (Cons x xs')
    then have "L = xs' @ ?c # (ys @ ?D)" using L by (metis append_Cons list.inject)
    moreover have "sorted_wrt (<) (map (nkey h) L)" using inv by (simp add: sl_inv_def)
    ultimately have "sorted_wrt (<) (map (nkey h) (xs' @ ?c # (ys @ ?D)))" by simp
    then show ?thesis by (simp add: sorted_wrt_append)
  qed
  have ysP: "\<forall>b\<in>set ys. ?P b"
  proof
    fix b assume b: "b \<in> set ys"
    have "b \<in> set ?T"
    proof (cases xs)
      case Nil
      then show ?thesis using sp b by simp
    next
      case (Cons x xs')
      then have "?T = xs' @ ?c # ys" using sp by simp
      then show ?thesis using b by simp
    qed
    then show "?P b" by (auto dest: set_takeWhileD)
  qed
  have tw: "takeWhile ?P (ys @ ?D) = ys"
    using ysP by (simp add: takeWhile_append2 takeWhile_dropWhile_Nil)
  have "advance h key i ?c = Some (Inr (last (?c # filter ?Q (takeWhile ?P (ys @ ?D)))))"
    using lk c dom srt by (rule advance_linked)
  also have "last (?c # filter ?Q (takeWhile ?P (ys @ ?D))) = last (?c # filter ?Q ys)"
    by (simp only: tw)
  also have "\<dots> = pred_at h hdr L key i"
  proof -
    have "filter ?Q (hdr # ?T) = filter ?Q xs @ ?c # filter ?Q ys"
      unfolding sp using c by simp
    then have "hdr # filter ?Q ?T = filter ?Q xs @ ?c # filter ?Q ys" using hd by simp
    then show ?thesis unfolding pred_at_def [of h hdr L key i] by (metis last_appendR last_ConsR list.distinct(1) last_append)
  qed
  finally show ?thesis .
qed

lemma search_loop_Suc:
  "search_loop h key (int (Suc i)) c =
     (case advance h key (Suc i) c of
        None \<Rightarrow> None
      | Some (Inl e) \<Rightarrow> Some (Inl e)
      | Some (Inr c') \<Rightarrow> search_loop h key (int i) c')"
proof -
  have "nat (int (Suc i)) = Suc i" "int (Suc i) - 1 = int i" "0 \<le> int (Suc i)" by simp_all
  then show ?thesis by (subst search_loop.simps) (simp only: if_True)
qed

lemma search_loop_0:
  "search_loop h key (int 0) c =
     (case advance h key 0 c of
        None \<Rightarrow> None
      | Some (Inl e) \<Rightarrow> Some (Inl e)
      | Some (Inr c') \<Rightarrow> Some (Inr c'))"
  by (subst search_loop.simps) (simp add: search_loop.simps [of _ _ "-1"] cong: option.case_cong sum.case_cong)

lemma search_update_loop_Suc:
  "search_update_loop h key (int (Suc i)) c u =
     (case advance h key (Suc i) c of
        None \<Rightarrow> None
      | Some (Inl e) \<Rightarrow> Some (Inl e)
      | Some (Inr c') \<Rightarrow>
          if Suc i < length u then search_update_loop h key (int i) c' (u[Suc i := Some c'])
          else Some (Inl OutOfBounds))"
proof -
  have "nat (int (Suc i)) = Suc i" "int (Suc i) - 1 = int i" "0 \<le> int (Suc i)" by simp_all
  then show ?thesis by (subst search_update_loop.simps) (simp only: if_True)
qed

lemma search_update_loop_0:
  "search_update_loop h key (int 0) c u =
     (case advance h key 0 c of
        None \<Rightarrow> None
      | Some (Inl e) \<Rightarrow> Some (Inl e)
      | Some (Inr c') \<Rightarrow>
          if 0 < length u then Some (Inr (c', u[0 := Some c'])) else Some (Inl OutOfBounds))"
  by (subst search_update_loop.simps)
     (auto simp: search_update_loop.simps [of _ _ "-1"] split: option.splits sum.splits)

lemma search_loop_pred:
  assumes "sl_inv h hdr ml lvl L" "i \<le> ml"
  shows "search_loop h key (int i) (pred_at h hdr L key (Suc i)) = Some (Inr (pred_at h hdr L key 0))"
  using assms(2)
proof (induction i)
  case 0
  then show ?case
    using advance_pred [OF assms(1), of 0 key] by (simp only: search_loop_0) simp
next
  case (Suc i)
  have "search_loop h key (int (Suc i)) (pred_at h hdr L key (Suc (Suc i)))
      = search_loop h key (int i) (pred_at h hdr L key (Suc i))"
    using advance_pred [OF assms(1) Suc.prems, of key]
    by (simp only: search_loop_Suc) simp
  then show ?case using Suc by simp
qed

lemma search_update_loop_pred:
  assumes "sl_inv h hdr ml lvl L" "i \<le> t" "t \<le> ml" "t < n"
  shows "search_update_loop h key (int i) (pred_at h hdr L key (Suc i))
           (map (\<lambda>j. if i < j \<and> j \<le> t then Some (pred_at h hdr L key j) else None) [0..<n])
         = Some (Inr (pred_at h hdr L key 0, trail h hdr L key t n))"
  using assms(2)
proof (induction i)
  case 0
  have "(map (\<lambda>j. if 0 < j \<and> j \<le> t then Some (pred_at h hdr L key j) else None) [0..<n])
          [0 := Some (pred_at h hdr L key 0)] = trail h hdr L key t n"
    using assms(4) by (auto simp: trail_def nth_list_update intro!: nth_equalityI)
  then show ?case
    using advance_pred [OF assms(1), of 0 key] assms(4)
    by (simp only: search_update_loop_0) simp
next
  case (Suc i)
  have upd: "(map (\<lambda>j. if Suc i < j \<and> j \<le> t then Some (pred_at h hdr L key j) else None) [0..<n])
          [Suc i := Some (pred_at h hdr L key (Suc i))]
        = map (\<lambda>j. if i < j \<and> j \<le> t then Some (pred_at h hdr L key j) else None) [0..<n]"
    using assms(4) Suc.prems by (auto intro!: nth_equalityI simp: nth_list_update)
  have "Suc i \<le> ml" using Suc.prems assms(3) by simp
  from advance_pred [OF assms(1) this, of key]
  have "search_update_loop h key (int (Suc i)) (pred_at h hdr L key (Suc (Suc i)))
           (map (\<lambda>j. if Suc i < j \<and> j \<le> t then Some (pred_at h hdr L key j) else None) [0..<n])
      = search_update_loop h key (int i) (pred_at h hdr L key (Suc i))
           (map (\<lambda>j. if i < j \<and> j \<le> t then Some (pred_at h hdr L key j) else None) [0..<n])"
    using assms(4) Suc.prems
    by (simp only: search_update_loop_Suc) (simp add: upd)
  then show ?case using Suc by simp
qed

lemma search_update_loop_inv:
  assumes "sl_inv h hdr ml lvl L"
  shows "search_update_loop h key (int lvl) hdr (replicate (Suc ml) None)
         = Some (Inr (pred_at h hdr L key 0, trail h hdr L key lvl (Suc ml)))"
proof -
  have "pred_at h hdr L key (Suc lvl) = hdr"
    using assms by (intro pred_at_top) (auto simp: sl_inv_def)
  moreover have "replicate (Suc ml) None
     = map (\<lambda>j. if lvl < j \<and> j \<le> lvl then Some (pred_at h hdr L key j) else None) [0..<Suc ml]"
    by (auto intro!: nth_equalityI simp del: upt_Suc replicate_Suc)
  moreover have "lvl \<le> ml" using assms by (simp add: sl_inv_def)
  ultimately show ?thesis
    using search_update_loop_pred [OF assms, of lvl lvl "Suc ml" key] by simp
qed

lemma search_loop_inv:
  assumes "sl_inv h hdr ml lvl L"
  shows "search_loop h key (int lvl) hdr = Some (Inr (pred_at h hdr L key 0))"
proof -
  have "pred_at h hdr L key (Suc lvl) = hdr"
    using assms by (intro pred_at_top) (auto simp: sl_inv_def)
  moreover have "lvl \<le> ml" using assms by (simp add: sl_inv_def)
  ultimately show ?thesis
    using search_loop_pred [OF assms, of lvl key] by simp
qed

lemma pred_at_0_split:
  assumes "sl_inv h hdr ml lvl L"
  shows "\<exists>xs. hdr # L = xs @ pred_at h hdr L key 0 # dropWhile (\<lambda>b. nkey h b < key) L"
proof -
  let ?P = "\<lambda>b. nkey h b < key"
  from pred_at_split [of hdr h key L 0]
  obtain xs ys where sp: "hdr # takeWhile ?P L = xs @ pred_at h hdr L key 0 # ys"
    and ys: "\<forall>b\<in>set ys. \<not> 0 < len h b" by blast
  have "set ys \<subseteq> set L"
  proof
    fix b assume b: "b \<in> set ys"
    have "b \<in> set (takeWhile ?P L)"
    proof (cases xs)
      case Nil then show ?thesis using sp b by simp
    next
      case (Cons x xs') then show ?thesis using sp b by simp
    qed
    then show "b \<in> set L" by (auto dest: set_takeWhileD)
  qed
  then have "ys = []" using ys assms by (cases ys) (auto simp: sl_inv_def)
  then have "hdr # L = xs @ pred_at h hdr L key 0 # dropWhile ?P L"
    using sp by (metis append.assoc append_Cons append_Nil takeWhile_dropWhile_id)
  then show ?thesis by blast
qed

lemma candidate:
  assumes "sl_inv h hdr ml lvl L"
  shows "forward_at h (pred_at h hdr L key 0) 0
     = Inr (case dropWhile (\<lambda>b. nkey h b < key) L of [] \<Rightarrow> None | b # bs \<Rightarrow> Some b)"
proof -
  let ?D = "dropWhile (\<lambda>b. nkey h b < key) L"
  from pred_at_0_split [OF assms] obtain xs where L: "hdr # L = xs @ pred_at h hdr L key 0 # ?D"
    by blast
  have "linked h 0 (pred_at h hdr L key 0 # ?D)"
    using assms L by (metis linked_append sl_inv_def)
  moreover have "0 < len h (pred_at h hdr L key 0)"
    using assms by (intro pred_at_len) (simp add: sl_inv_def)
  ultimately have "forward_at h (pred_at h hdr L key 0) 0 = Inr (find (\<lambda>b. 0 < len h b) ?D)"
    by simp
  moreover have "find (\<lambda>b. 0 < len h b) ?D = (case ?D of [] \<Rightarrow> None | b # bs \<Rightarrow> Some b)"
  proof (cases ?D)
    case Nil then show ?thesis by (simp only: find.simps list.case)
  next
    case (Cons b bs)
    then have "b \<in> set L" by (metis list.set_intros(1) set_dropWhileD)
    then have "0 < len h b" using assms by (simp add: sl_inv_def)
    then show ?thesis using Cons by simp
  qed
  ultimately show ?thesis by simp
qed

lemma match_key_candidate:
  assumes "sl_inv h hdr ml lvl L"
  shows "match_key h (case dropWhile (\<lambda>b. nkey h b < key) L of [] \<Rightarrow> None | b # bs \<Rightarrow> Some b) key
     = Inr (hit h L key)"
proof (cases "dropWhile (\<lambda>b. nkey h b < key) L")
  case Nil
  then show ?thesis by (simp only: match_key_def hit_def list.case option.case)
next
  case (Cons b bs)
  then have "b \<in> set L" by (metis list.set_intros(1) set_dropWhileD)
  then have "b \<in> dom h" using assms by (auto simp: sl_inv_def)
  then show ?thesis using Cons by (auto simp: match_key_def hit_def nkey_def)
qed

lemma hit_mem: "hit h L key = Some c \<Longrightarrow> c \<in> set L \<and> nkey h c = key"
  by (auto simp: hit_def split: list.splits if_splits)
     (metis list.set_intros(1) set_dropWhileD)

lemma abs_map_hit:
  assumes "sorted_wrt (<) (map (nkey h) L)"
  shows "abs_map h L key = map_option (nval h) (hit h L key)"
  using assms
proof (induction L)
  case Nil
  then show ?case by (simp add: abs_map_def hit_def)
next
  case (Cons a L)
  then have IH: "abs_map h L key = map_option (nval h) (hit h L key)" by simp
  consider "nkey h a < key" | "nkey h a = key" | "key < nkey h a" by (meson less_linear)
  then show ?case
  proof cases
    case 1
    then have "nkey h a \<noteq> key" by simp
    then show ?thesis using IH 1 by (simp add: abs_map_def hit_def)
  next
    case 2
    then show ?thesis by (simp add: abs_map_def hit_def)
  next
    case 3
    have "\<forall>b\<in>set L. key < nkey h b" using Cons.prems 3 by auto
    then have "key \<notin> fst ` set (map (\<lambda>a. (nkey h a, nval h a)) L)" by auto
    then have "map_of (map (\<lambda>a. (nkey h a, nval h a)) L) key = None"
      by (simp add: map_of_eq_None_iff)
    moreover have "\<not> nkey h a < key" "nkey h a \<noteq> key" using 3 by auto
    ultimately show ?thesis by (simp add: abs_map_def hit_def)
  qed
qed

lemma data_at: "data g = data h \<Longrightarrow> data g a = data h a"
  by simp

lemma data_None: "data h a = None \<longleftrightarrow> h a = None"
  by (simp add: data_def)

lemma data_len: "data g = data h \<Longrightarrow> len g a = len h a"
  by (drule data_at [of g h a]) (auto simp: data_def len_def split: option.splits)

lemma data_nkey: "data g = data h \<Longrightarrow> a \<in> dom h \<Longrightarrow> nkey g a = nkey h a"
  by (drule data_at [of g h a]) (auto simp: data_def nkey_def split: option.splits)

lemma data_nval: "data g = data h \<Longrightarrow> a \<in> dom h \<Longrightarrow> nval g a = nval h a"
  by (drule data_at [of g h a]) (auto simp: data_def nval_def split: option.splits)

lemma data_dom: "data g = data h \<Longrightarrow> dom g = dom h"
proof -
  assume eq: "data g = data h"
  have "\<And>a. (g a = None) = (h a = None)"
    using data_at [OF eq] by (metis data_None)
  then show ?thesis by (auto simp: dom_def)
qed

lemma find_len_cong:
  "\<forall>a\<in>set ys. len g a = len h a \<Longrightarrow> find (\<lambda>b. i < len g b) ys = find (\<lambda>b. i < len h b) ys"
  by (induction ys) auto

lemma linked_frame:
  "\<forall>a\<in>set xs. len g a = len h a \<and> forward_at g a i = forward_at h a i \<Longrightarrow>
     linked g i xs = linked h i xs"
proof (induction xs)
  case Nil
  then show ?case by simp
next
  case (Cons a xs)
  then have "find (\<lambda>b. i < len g b) xs = find (\<lambda>b. i < len h b) xs"
    by (intro find_len_cong) simp
  then show ?case using Cons by simp
qed

lemma find_hidden:
  "\<forall>b\<in>set xs. \<not> P b \<Longrightarrow> find P (xs @ ys) = find P ys"
  by (induction xs) auto

lemma find_shown:
  "filter P xs \<noteq> [] \<Longrightarrow> find P (xs @ ys) = find P xs"
  by (induction xs) auto

lemma linked_hidden_prefix:
  "\<forall>b\<in>set xs. \<not> i < len h b \<Longrightarrow> linked h i (xs @ ys) = linked h i ys"
  by (induction xs) auto

lemma linked_invisible:
  "\<not> i < len h b \<Longrightarrow> linked h i (xs @ b # ys) = linked h i (xs @ ys)"
proof (induction xs)
  case Nil
  then show ?case by simp
next
  case (Cons a xs)
  have "find (\<lambda>b. i < len h b) (xs @ b # ys) = find (\<lambda>b. i < len h b) (xs @ ys)"
    using Cons.prems by (induction xs) auto
  then show ?case using Cons by simp
qed

lemma splice_linked:
  assumes "linked h i (A @ B)" "distinct (A @ new # B)"
    "filter (\<lambda>b. i < len h b) A \<noteq> []" "p = last (filter (\<lambda>b. i < len h b) A)"
    "\<forall>a\<in>set (A @ B). len g a = len h a" "i < len g new"
    "forward_at g p i = Inr (Some new)"
    "forward_at g new i = Inr (find (\<lambda>b. i < len h b) B)"
    "\<forall>a\<in>set (A @ B) - {p}. forward_at g a i = forward_at h a i"
  shows "linked g i (A @ new # B)"
  using assms
proof (induction A)
  case Nil
  then show ?case by simp
next
  case (Cons a A)
  have lenB: "\<forall>b\<in>set B. len g b = len h b" using Cons.prems(5) by simp
  have lenA: "\<forall>b\<in>set A. len g b = len h b" using Cons.prems(5) by simp
  show ?case
  proof (cases "filter (\<lambda>b. i < len h b) A = []")
    case True
    then have hid: "\<forall>b\<in>set A. \<not> i < len h b" by (auto simp: filter_empty_conv)
    then have hidg: "\<forall>b\<in>set A. \<not> i < len g b" using lenA by simp
    have vis: "i < len h a" using Cons.prems(3) True by (auto split: if_splits)
    then have p: "p = a" using Cons.prems(4) True by simp
    have "p \<notin> set B" using p Cons.prems(2) by auto
    then have "linked g i B = linked h i B"
      using Cons.prems(9) lenB by (intro linked_frame) auto
    moreover have "linked h i B"
      using linked_append [of h i "a # A" B] Cons.prems(1) by simp
    moreover have "find (\<lambda>b. i < len g b) B = find (\<lambda>b. i < len h b) B"
      using lenB by (rule find_len_cong)
    ultimately have "linked g i (new # B)" using Cons.prems(8) by simp
    then have "linked g i (A @ new # B)" using hidg by (simp add: linked_hidden_prefix)
    moreover have "find (\<lambda>b. i < len g b) (A @ new # B) = Some new"
      using hidg Cons.prems(6) by (simp add: find_hidden)
    ultimately show ?thesis using p Cons.prems(7) by simp
  next
    case False
    then have p: "p = last (filter (\<lambda>b. i < len h b) A)" using Cons.prems(4) by (simp split: if_splits)
    then have "p \<in> set A" using False by (metis filter_is_subset last_in_set subsetD)
    then have pa: "p \<noteq> a" using Cons.prems(2) by auto
    have IH: "linked g i (A @ new # B)"
    proof (rule Cons.IH)
      show "linked h i (A @ B)" using Cons.prems(1) by simp
      show "distinct (A @ new # B)" using Cons.prems(2) by simp
      show "filter (\<lambda>b. i < len h b) A \<noteq> []" by (rule False)
      show "p = last (filter (\<lambda>b. i < len h b) A)" by (rule p)
      show "\<forall>a\<in>set (A @ B). len g a = len h a" using Cons.prems(5) by simp
      show "i < len g new" by (rule Cons.prems(6))
      show "forward_at g p i = Inr (Some new)" by (rule Cons.prems(7))
      show "forward_at g new i = Inr (find (\<lambda>b. i < len h b) B)" by (rule Cons.prems(8))
      show "\<forall>a\<in>set (A @ B) - {p}. forward_at g a i = forward_at h a i"
        using Cons.prems(9) by simp
    qed
    have fg: "filter (\<lambda>b. i < len g b) A = filter (\<lambda>b. i < len h b) A"
      using lenA by (intro filter_cong) auto
    have "find (\<lambda>b. i < len g b) (A @ new # B) = find (\<lambda>b. i < len g b) A"
      using False fg by (intro find_shown) simp
    also have "\<dots> = find (\<lambda>b. i < len h b) A" using lenA by (rule find_len_cong)
    also have "\<dots> = find (\<lambda>b. i < len h b) (A @ B)" using False by (simp add: find_shown)
    finally have f: "find (\<lambda>b. i < len g b) (A @ new # B) = find (\<lambda>b. i < len h b) (A @ B)" .
    have "forward_at g a i = forward_at h a i" using Cons.prems(9) pa by simp
    moreover have "len g a = len h a" using Cons.prems(5) by simp
    ultimately show ?thesis using IH f Cons.prems(1) by simp
  qed
qed

lemma unlink_linked:
  assumes "linked h i (A @ c # B)" "distinct (A @ c # B)"
    "filter (\<lambda>b. i < len h b) A \<noteq> []" "p = last (filter (\<lambda>b. i < len h b) A)"
    "\<forall>a\<in>set (A @ B). len g a = len h a" "i < len h c"
    "forward_at g p i = forward_at h c i"
    "\<forall>a\<in>set (A @ B) - {p}. forward_at g a i = forward_at h a i"
  shows "linked g i (A @ B)"
  using assms
proof (induction A)
  case Nil
  then show ?case by simp
next
  case (Cons a A)
  have lenB: "\<forall>b\<in>set B. len g b = len h b" using Cons.prems(5) by simp
  have lenA: "\<forall>b\<in>set A. len g b = len h b" using Cons.prems(5) by simp
  have "linked h i (c # B)"
    using linked_append [of h i "a # A" "c # B"] Cons.prems(1) by simp
  then have cB: "forward_at h c i = Inr (find (\<lambda>b. i < len h b) B)"
    and hB: "linked h i B" using Cons.prems(6) by simp_all
  show ?case
  proof (cases "filter (\<lambda>b. i < len h b) A = []")
    case True
    then have hid: "\<forall>b\<in>set A. \<not> i < len h b" by (auto simp: filter_empty_conv)
    then have hidg: "\<forall>b\<in>set A. \<not> i < len g b" using lenA by simp
    have vis: "i < len h a" using Cons.prems(3) True by (auto split: if_splits)
    then have p: "p = a" using Cons.prems(4) True by simp
    have "p \<notin> set B" using p Cons.prems(2) by auto
    then have "linked g i B = linked h i B"
      using Cons.prems(8) lenB by (intro linked_frame) auto
    then have "linked g i (A @ B)" using hB using hidg by (simp add: linked_hidden_prefix)
    moreover have "find (\<lambda>b. i < len g b) (A @ B) = find (\<lambda>b. i < len h b) B"
      using hidg lenB by (simp add: find_hidden find_len_cong)
    ultimately show ?thesis using p Cons.prems(7) cB by simp
  next
    case False
    then have p: "p = last (filter (\<lambda>b. i < len h b) A)" using Cons.prems(4) by (simp split: if_splits)
    then have "p \<in> set A" using False by (metis filter_is_subset last_in_set subsetD)
    then have pa: "p \<noteq> a" using Cons.prems(2) by auto
    have IH: "linked g i (A @ B)"
    proof (rule Cons.IH)
      show "linked h i (A @ c # B)" using Cons.prems(1) by simp
      show "distinct (A @ c # B)" using Cons.prems(2) by simp
      show "filter (\<lambda>b. i < len h b) A \<noteq> []" by (rule False)
      show "p = last (filter (\<lambda>b. i < len h b) A)" by (rule p)
      show "\<forall>a\<in>set (A @ B). len g a = len h a" using Cons.prems(5) by simp
      show "i < len h c" by (rule Cons.prems(6))
      show "forward_at g p i = forward_at h c i" by (rule Cons.prems(7))
      show "\<forall>a\<in>set (A @ B) - {p}. forward_at g a i = forward_at h a i"
        using Cons.prems(8) by simp
    qed
    have fg: "filter (\<lambda>b. i < len g b) A = filter (\<lambda>b. i < len h b) A"
      using lenA by (intro filter_cong) auto
    have "find (\<lambda>b. i < len g b) (A @ B) = find (\<lambda>b. i < len g b) A"
      using False fg by (intro find_shown) simp
    also have "\<dots> = find (\<lambda>b. i < len h b) A" using lenA by (rule find_len_cong)
    also have "\<dots> = find (\<lambda>b. i < len h b) (A @ c # B)" using False by (simp add: find_shown)
    finally have f: "find (\<lambda>b. i < len g b) (A @ B) = find (\<lambda>b. i < len h b) (A @ c # B)" .
    have "forward_at g a i = forward_at h a i" using Cons.prems(8) pa by simp
    moreover have "len g a = len h a" using Cons.prems(5) by simp
    ultimately show ?thesis using IH f Cons.prems(1) by simp
  qed
qed

lemma forward_at_len: "forward_at h a i = Inr q \<Longrightarrow> i < len h a"
  by (auto simp: forward_at_def len_def split: option.splits if_splits)

lemma forward_at_total: "i < len h a \<Longrightarrow> \<exists>q. forward_at h a i = Inr q"
  by (auto simp: forward_at_def len_def split: option.splits if_splits)

lemma store_forward_ok:
  assumes "i < len g p"
  shows "\<exists>g'. store_forward g p i q = Inr g' \<and> data g' = data g \<and>
     forward_at g' p i = Inr q \<and>
     (\<forall>a j. a \<noteq> p \<or> j \<noteq> i \<longrightarrow> forward_at g' a j = forward_at g a j)"
proof -
  from assms obtain n where n: "g p = Some n" "i < length (forward' n)"
    by (auto simp: len_def split: option.splits)
  let ?g = "g(p \<mapsto> n\<lparr>forward' := (forward' n)[i := q]\<rparr>)"
  have "store_forward g p i q = Inr ?g" using n by (simp add: store_forward_def)
  moreover have "data ?g = data g" using n by (auto simp: data_def fun_eq_iff)
  moreover have "forward_at ?g p i = Inr q" using n by (simp add: forward_at_def)
  moreover have "\<forall>a j. a \<noteq> p \<or> j \<noteq> i \<longrightarrow> forward_at ?g a j = forward_at g a j"
    using n by (auto simp: forward_at_def nth_list_update)
  ultimately show ?thesis by blast
qed

lemma pred_at_last:
  assumes "i < len h hdr"
  shows "pred_at h hdr L key i = last (filter (\<lambda>b. i < len h b) (hdr # takeWhile (\<lambda>b. nkey h b < key) L))"
  using assms by (simp add: pred_at_def)

lemma pred_at_forward:
  assumes inv: "sl_inv h hdr ml lvl L" and i: "i \<le> ml"
  shows "forward_at h (pred_at h hdr L key i) i =
     Inr (find (\<lambda>b. i < len h b) (dropWhile (\<lambda>b. nkey h b < key) L))"
proof -
  let ?P = "\<lambda>b. nkey h b < key"
  let ?p = "pred_at h hdr L key i"
  from pred_at_split [of hdr h key L i]
  obtain xs ys where sp: "hdr # takeWhile ?P L = xs @ ?p # ys"
    and ys: "\<forall>b\<in>set ys. \<not> i < len h b" by blast
  have L: "hdr # L = xs @ ?p # (ys @ dropWhile ?P L)"
    using sp by (metis append.assoc append_Cons takeWhile_dropWhile_id)
  have "linked h i (hdr # L)" using inv by (simp add: sl_inv_def)
  then have "linked h i (?p # (ys @ dropWhile ?P L))"
    unfolding L by (rule linked_append)
  moreover have "i < len h ?p" using inv i by (intro pred_at_len) (simp add: sl_inv_def)
  ultimately have "forward_at h ?p i = Inr (find (\<lambda>b. i < len h b) (ys @ dropWhile ?P L))"
    by simp
  then show ?thesis using ys by (simp add: find_hidden)
qed

lemma distinct_insert_mid:
  "distinct (xs @ ys) \<Longrightarrow> a \<notin> set (xs @ ys) \<Longrightarrow> distinct (xs @ a # ys)"
  by auto

lemma splice_level_step:
  assumes inv: "sl_inv h hdr ml lvl L"
    and new: "new \<notin> dom h"
    and h0: "h0 = h(new \<mapsto> nd)" "length (forward' nd) = Suc nl"
    and g: "data g = data h0" "\<forall>a. forward_at g a i = forward_at h0 a i"
    and i: "i \<le> nl" "nl \<le> ml"
    and upd: "i < length upd" "upd ! i = Some (pred_at h hdr L key i)"
  shows "\<exists>g'. splice_level g upd new i = Inr g' \<and> data g' = data g \<and>
     (\<forall>a j. j \<noteq> i \<longrightarrow> forward_at g' a j = forward_at g a j) \<and>
     linked g' i (hdr # inserted h L key new)"
proof -
  let ?P = "\<lambda>b. nkey h b < key"
  let ?Q = "\<lambda>b. i < len h b"
  let ?p = "pred_at h hdr L key i"
  let ?A = "hdr # takeWhile ?P L" and ?B = "dropWhile ?P L"
  have AB: "?A @ ?B = hdr # L" by simp
  have dom: "dom h = set (hdr # L)" and dist: "distinct (hdr # L)"
    and lk: "linked h i (hdr # L)" and lh: "len h hdr = Suc ml"
    using inv by (simp_all add: sl_inv_def)
  have newL: "new \<notin> set (hdr # L)" using new dom by simp
  have pmem: "?p \<in> set (hdr # L)" by (rule pred_at_mem')
  then have pnew: "?p \<noteq> new" using newL by auto
  have ih: "i < len h hdr" using lh i by simp
  have plen: "i < len h ?p" using ih by (rule pred_at_len)
  have len0: "\<And>a. a \<noteq> new \<Longrightarrow> len h0 a = len h a" by (simp add: h0 len_def)
  have lennew: "len h0 new = Suc nl" by (simp add: h0 len_def)
  have leng: "\<And>a. len g a = len h0 a" using g(1) by (rule data_len)
  have fw0: "\<And>a j. a \<noteq> new \<Longrightarrow> forward_at h0 a j = forward_at h a j"
    by (simp add: h0 forward_at_def)
  have fp: "forward_at g ?p i = Inr (find ?Q ?B)"
    using g(2) fw0 [OF pnew] pred_at_forward [OF inv, of i key] i by simp
  have "i < len g new" using leng lennew i by simp
  from store_forward_ok [OF this, of "find ?Q ?B"]
  obtain g1 where g1: "store_forward g new i (find ?Q ?B) = Inr g1" "data g1 = data g"
    "forward_at g1 new i = Inr (find ?Q ?B)"
    "\<forall>a j. a \<noteq> new \<or> j \<noteq> i \<longrightarrow> forward_at g1 a j = forward_at g a j" by blast
  have "i < len g1 ?p" using data_len [OF g1(2)] leng len0 [OF pnew] plen by simp
  from store_forward_ok [OF this, of "Some new"]
  obtain g2 where g2: "store_forward g1 ?p i (Some new) = Inr g2" "data g2 = data g1"
    "forward_at g2 ?p i = Inr (Some new)"
    "\<forall>a j. a \<noteq> ?p \<or> j \<noteq> i \<longrightarrow> forward_at g2 a j = forward_at g1 a j" by blast
  have run: "splice_level g upd new i = Inr g2"
    using upd fp g1(1) g2(1) by (simp add: splice_level_def)
  have d2: "data g2 = data g" using g1(2) g2(2) by simp
  have other: "\<forall>a j. j \<noteq> i \<longrightarrow> forward_at g2 a j = forward_at g a j"
    using g1(4) g2(4) by simp
  have len2: "\<And>a. len g2 a = len h0 a" using data_len [OF d2] leng by simp
  have "linked g2 i (?A @ new # ?B)"
  proof (rule splice_linked [where h = h and p = ?p])
    show "linked h i (?A @ ?B)" using lk by simp
    show "distinct (?A @ new # ?B)"
    proof (rule distinct_insert_mid)
      show "distinct (?A @ ?B)" unfolding AB by (rule dist)
      show "new \<notin> set (?A @ ?B)" unfolding AB by (rule newL)
    qed
    show "filter ?Q ?A \<noteq> []" using ih by simp
    show "?p = last (filter ?Q ?A)" using ih by (rule pred_at_last)
    show "\<forall>a\<in>set (?A @ ?B). len g2 a = len h a"
      unfolding AB
    proof
      fix a assume "a \<in> set (hdr # L)"
      then have "a \<noteq> new" using newL by auto
      then show "len g2 a = len h a" using len2 len0 by simp
    qed
    show "i < len g2 new" using len2 lennew i by simp
    show "forward_at g2 ?p i = Inr (Some new)" by (rule g2(3))
    show "forward_at g2 new i = Inr (find ?Q ?B)" using g2(4) g1(3) pnew by simp
    show "\<forall>a\<in>set (?A @ ?B) - {?p}. forward_at g2 a i = forward_at h a i"
      unfolding AB
    proof
      fix a assume a: "a \<in> set (hdr # L) - {?p}"
      then have "a \<noteq> new" "a \<noteq> ?p" using newL by auto
      then show "forward_at g2 a i = forward_at h a i"
        using g2(4) g1(4) g(2) fw0 by simp
    qed
  qed
  then have "linked g2 i (hdr # inserted h L key new)" by (simp add: inserted_def)
  then show ?thesis using run d2 other by blast
qed

lemma hit_drop: "hit h L key = Some c \<Longrightarrow>
   dropWhile (\<lambda>b. nkey h b < key) L = c # tl (dropWhile (\<lambda>b. nkey h b < key) L)"
  by (auto simp: hit_def split: list.splits if_splits)

lemma find_mem: "find P xs = Some x \<Longrightarrow> x \<in> set xs"
  by (induction xs) (auto split: if_splits)

lemma unlink_level_step:
  assumes inv: "sl_inv h hdr ml lvl L"
    and hit: "hit h L key = Some c"
    and g: "data g = data h" "\<forall>a. forward_at g a i = forward_at h a i"
    and i: "i \<le> ml"
    and upd: "i < length upd" "upd ! i = Some (pred_at h hdr L key i)"
  shows "\<exists>g'. unlink_level g upd c i = Inr g' \<and> data g' = data g \<and>
     (\<forall>a j. j \<noteq> i \<longrightarrow> forward_at g' a j = forward_at g a j) \<and>
     linked g' i (hdr # removed h L key)"
proof -
  let ?P = "\<lambda>b. nkey h b < key"
  let ?Q = "\<lambda>b. i < len h b"
  let ?p = "pred_at h hdr L key i"
  let ?A = "hdr # takeWhile ?P L" and ?B = "tl (dropWhile ?P L)"
  have D: "dropWhile ?P L = c # ?B" using hit by (rule hit_drop)
  have AB: "?A @ c # ?B = hdr # L" using D by (metis append_Cons takeWhile_dropWhile_id)
  have dist: "distinct (hdr # L)"
    and lk: "linked h i (hdr # L)" and lh: "len h hdr = Suc ml"
    using inv by (simp_all add: sl_inv_def)
  have ih: "i < len h hdr" using lh i by simp
  have plen: "i < len h ?p" using ih by (rule pred_at_len)
  have leng: "\<And>a. len g a = len h a" using g(1) by (rule data_len)
  have fp: "forward_at g ?p i = Inr (find ?Q (c # ?B))"
    using g(2) pred_at_forward [OF inv i, of key] D by simp
  have dAB: "distinct (?A @ c # ?B)" unfolding AB by (rule dist)
  show ?thesis
  proof (cases "i < len h c")
    case True
    then obtain q where q: "forward_at h c i = Inr q" using forward_at_total by blast
    have fc: "forward_at g c i = Inr q" using g(2) q by simp
    have "i < len g ?p" using leng plen by simp
    from store_forward_ok [OF this, of q]
    obtain g' where g': "store_forward g ?p i q = Inr g'" "data g' = data g"
      "forward_at g' ?p i = Inr q"
      "\<forall>a j. a \<noteq> ?p \<or> j \<noteq> i \<longrightarrow> forward_at g' a j = forward_at g a j" by blast
    have run: "unlink_level g upd c i = Inr g'"
      using upd fp True fc g'(1) by (simp add: unlink_level_def)
    have "linked g' i (?A @ ?B)"
    proof (rule unlink_linked [where h = h and p = ?p and c = c])
      show "linked h i (?A @ c # ?B)" unfolding AB by (rule lk)
      show "distinct (?A @ c # ?B)" by (rule dAB)
      show "filter ?Q ?A \<noteq> []" using ih by simp
      show "?p = last (filter ?Q ?A)" using ih by (rule pred_at_last)
      show "\<forall>a\<in>set (?A @ ?B). len g' a = len h a"
        using data_len [OF g'(2)] leng by simp
      show "i < len h c" by (rule True)
      show "forward_at g' ?p i = forward_at h c i" using g'(3) q by simp
      show "\<forall>a\<in>set (?A @ ?B) - {?p}. forward_at g' a i = forward_at h a i"
        using g'(4) g(2) by simp
    qed
    then have "linked g' i (hdr # removed h L key)" by (simp add: removed_def)
    moreover have "\<forall>a j. j \<noteq> i \<longrightarrow> forward_at g' a j = forward_at g a j" using g'(4) by simp
    ultimately show ?thesis using run g'(2) by blast
  next
    case False
    have "find ?Q (c # ?B) \<noteq> Some c"
    proof
      assume "find ?Q (c # ?B) = Some c"
      then have "find ?Q ?B = Some c" using False by simp
      then have "c \<in> set ?B" by (rule find_mem)
      then show False using dAB by simp
    qed
    then have run: "unlink_level g upd c i = Inr g"
      using upd fp by (simp add: unlink_level_def)
    have "linked g i (?A @ ?B) = linked h i (?A @ ?B)"
      using leng g(2) by (intro linked_frame) simp
    also have "\<dots> = linked h i (?A @ c # ?B)" using False by (rule linked_invisible [symmetric])
    finally have "linked g i (?A @ ?B)" unfolding AB using lk by simp
    then have "linked g i (hdr # removed h L key)" by (simp add: removed_def)
    then show ?thesis using run by blast
  qed
qed

lemma relinked_0: "relinked h0 xs 0 h0"
  by (simp add: relinked_def)

lemma relinked_step:
  assumes "relinked h0 xs i g" "data g' = data g"
    "\<forall>a j. j \<noteq> i \<longrightarrow> forward_at g' a j = forward_at g a j" "linked g' i xs"
  shows "relinked h0 xs (Suc i) g'"
proof -
  have "\<forall>j<i. linked g' j xs"
  proof (intro allI impI)
    fix j assume j: "j < i"
    have "linked g' j xs = linked g j xs"
      using assms(3) j data_len [OF assms(2)] by (intro linked_frame) simp
    then show "linked g' j xs" using assms(1) j by (simp add: relinked_def)
  qed
  then have "\<forall>j<Suc i. linked g' j xs" using assms(4) by (simp add: less_Suc_eq)
  moreover have "\<forall>j\<ge>Suc i. \<forall>a. forward_at g' a j = forward_at h0 a j"
    using assms(1,3) by (simp add: relinked_def)
  ultimately show ?thesis using assms(1,2) by (simp add: relinked_def)
qed

lemma splice_levels:
  assumes inv: "sl_inv h hdr ml lvl L"
    and new: "new \<notin> dom h"
    and h0: "h0 = h(new \<mapsto> nd)" "length (forward' nd) = Suc nl"
    and nl: "nl \<le> ml"
    and upd: "Suc nl \<le> length upd" "\<forall>j\<le>nl. upd ! j = Some (pred_at h hdr L key j)"
    and g: "relinked h0 (hdr # inserted h L key new) i g" and n: "i + n = Suc nl"
  shows "\<exists>g'. levels_from (\<lambda>g i. splice_level g upd new i) n i g = Inr g' \<and>
     relinked h0 (hdr # inserted h L key new) (Suc nl) g'"
  using g n
proof (induction n arbitrary: i g)
  case 0
  then show ?case by simp
next
  case (Suc n)
  have i: "i \<le> nl" using Suc.prems(2) by simp
  have "\<exists>g'. splice_level g upd new i = Inr g' \<and> data g' = data g \<and>
     (\<forall>a j. j \<noteq> i \<longrightarrow> forward_at g' a j = forward_at g a j) \<and>
     linked g' i (hdr # inserted h L key new)"
  proof (rule splice_level_step [OF inv new h0])
    show "data g = data h0" using Suc.prems(1) by (simp add: relinked_def)
    show "\<forall>a. forward_at g a i = forward_at h0 a i" using Suc.prems(1) by (simp add: relinked_def)
    show "i \<le> nl" by (rule i)
    show "nl \<le> ml" by (rule nl)
    show "i < length upd" using i upd(1) by simp
    show "upd ! i = Some (pred_at h hdr L key i)" using i upd(2) by simp
  qed
  then obtain g' where g': "splice_level g upd new i = Inr g'" "data g' = data g"
     "\<forall>a j. j \<noteq> i \<longrightarrow> forward_at g' a j = forward_at g a j"
     "linked g' i (hdr # inserted h L key new)" by blast
  have "relinked h0 (hdr # inserted h L key new) (Suc i) g'"
    using Suc.prems(1) g'(2,3,4) by (rule relinked_step)
  from Suc.IH [OF this] Suc.prems(2) show ?case using g'(1) by simp
qed

lemma unlink_levels:
  assumes inv: "sl_inv h hdr ml lvl L"
    and hit: "hit h L key = Some c"
    and t: "t \<le> ml"
    and upd: "Suc t \<le> length upd" "\<forall>j\<le>t. upd ! j = Some (pred_at h hdr L key j)"
    and g: "relinked h (hdr # removed h L key) i g" and n: "i + n = Suc t"
  shows "\<exists>g'. levels_from (\<lambda>g i. unlink_level g upd c i) n i g = Inr g' \<and>
     relinked h (hdr # removed h L key) (Suc t) g'"
  using g n
proof (induction n arbitrary: i g)
  case 0
  then show ?case by simp
next
  case (Suc n)
  have i: "i \<le> t" using Suc.prems(2) by simp
  have "\<exists>g'. unlink_level g upd c i = Inr g' \<and> data g' = data g \<and>
     (\<forall>a j. j \<noteq> i \<longrightarrow> forward_at g' a j = forward_at g a j) \<and>
     linked g' i (hdr # removed h L key)"
  proof (rule unlink_level_step [OF inv hit])
    show "data g = data h" using Suc.prems(1) by (simp add: relinked_def)
    show "\<forall>a. forward_at g a i = forward_at h a i" using Suc.prems(1) by (simp add: relinked_def)
    show "i \<le> ml" using i t by simp
    show "i < length upd" using i upd(1) by simp
    show "upd ! i = Some (pred_at h hdr L key i)" using i upd(2) by simp
  qed
  then obtain g' where g': "unlink_level g upd c i = Inr g'" "data g' = data g"
     "\<forall>a j. j \<noteq> i \<longrightarrow> forward_at g' a j = forward_at g a j"
     "linked g' i (hdr # removed h L key)" by blast
  have "relinked h (hdr # removed h L key) (Suc i) g'"
    using Suc.prems(1) g'(2,3,4) by (rule relinked_step)
  from Suc.IH [OF this] Suc.prems(2) show ?case using g'(1) by simp
qed

lemma keys_before: "b \<in> set (takeWhile (\<lambda>b. nkey h b < key) L) \<Longrightarrow> nkey h b < key"
  by (auto dest: set_takeWhileD)

lemma sorted_split:
  assumes "sorted_wrt (<) (map (nkey h) L)"
  shows "sorted_wrt (<) (map (nkey h) (takeWhile (\<lambda>b. nkey h b < key) L))"
    and "sorted_wrt (<) (map (nkey h) (dropWhile (\<lambda>b. nkey h b < key) L))"
proof -
  have "sorted_wrt (<) (map (nkey h) (takeWhile (\<lambda>b. nkey h b < key) L @ dropWhile (\<lambda>b. nkey h b < key) L))"
    using assms by simp
  then show "sorted_wrt (<) (map (nkey h) (takeWhile (\<lambda>b. nkey h b < key) L))"
    and "sorted_wrt (<) (map (nkey h) (dropWhile (\<lambda>b. nkey h b < key) L))"
    unfolding map_append sorted_wrt_append by simp_all
qed

lemma keys_after_miss:
  assumes "sorted_wrt (<) (map (nkey h) L)" "hit h L key = None"
    "b \<in> set (dropWhile (\<lambda>b. nkey h b < key) L)"
  shows "key < nkey h b"
proof (cases "dropWhile (\<lambda>b. nkey h b < key) L")
  case Nil
  show ?thesis using assms(3) unfolding Nil by simp
next
  case (Cons d ds)
  have "\<not> nkey h d < key" using Cons by (metis hd_dropWhile list.distinct(1) list.sel(1))
  moreover have "nkey h d \<noteq> key" using assms(2) Cons by (auto simp: hit_def)
  ultimately have d: "key < nkey h d" by simp
  have "sorted_wrt (<) (map (nkey h) (d # ds))" using sorted_split(2) [OF assms(1), of key] Cons by simp
  then have "\<forall>x\<in>set ds. nkey h d < nkey h x" by simp
  then show ?thesis using d assms(3) Cons by auto
qed

lemma keys_after_hit:
  assumes "sorted_wrt (<) (map (nkey h) L)" "hit h L key = Some c"
    "b \<in> set (tl (dropWhile (\<lambda>b. nkey h b < key) L))"
  shows "key < nkey h b"
proof -
  let ?D = "tl (dropWhile (\<lambda>b. nkey h b < key) L)"
  have D: "dropWhile (\<lambda>b. nkey h b < key) L = c # ?D" using assms(2) by (rule hit_drop)
  have "sorted_wrt (<) (map (nkey h) (c # ?D))" using sorted_split(2) [OF assms(1), of key] D by simp
  then have "\<forall>x\<in>set ?D. nkey h c < nkey h x" by simp
  moreover have "nkey h c = key" using assms(2) hit_mem by blast
  ultimately show ?thesis using assms(3) by auto
qed

lemma map_of_insert_mid:
  "k \<notin> fst ` set xs \<Longrightarrow> map_of (xs @ (k, v) # ys) = (map_of (xs @ ys))(k \<mapsto> v)"
  by (induction xs) (auto simp: fun_eq_iff)

lemma map_of_remove_mid:
  "k \<notin> fst ` set xs \<Longrightarrow> k \<notin> fst ` set ys \<Longrightarrow>
     map_of (xs @ ys) = (map_of (xs @ (k, v) # ys))(k := None)"
proof (induction xs)
  case Nil
  then have "map_of ys k = None" by (simp add: map_of_eq_None_iff)
  then show ?case by (auto simp: fun_eq_iff)
next
  case (Cons x xs)
  then show ?case by (auto simp: fun_eq_iff)
qed

lemma sl_inv_insert:
  assumes inv: "sl_inv h hdr ml lvl L"
    and new: "new \<notin> dom h"
    and h0: "h0 = h(new \<mapsto> nd)" "length (forward' nd) = Suc nl" "key' nd = key" "value' nd = val"
    and nl: "nl \<le> ml"
    and miss: "hit h L key = None"
    and g: "relinked h0 (hdr # inserted h L key new) (Suc nl) g"
  shows "sl_inv g hdr ml (max lvl nl) (inserted h L key new)"
    and "abs_map g (inserted h L key new) = (abs_map h L)(key \<mapsto> val)"
proof -
  let ?P = "\<lambda>b. nkey h b < key"
  let ?T = "takeWhile ?P L" and ?D = "dropWhile ?P L"
  have TD: "?T @ ?D = L" by simp
  have dom: "dom h = set (hdr # L)" and dist: "distinct (hdr # L)"
    and srt: "sorted_wrt (<) (map (nkey h) L)"
    and lh: "len h hdr = Suc ml" and lens: "\<forall>a\<in>set L. 0 < len h a \<and> len h a \<le> Suc lvl"
    and lvl: "lvl \<le> ml" and lk: "\<And>i. linked h i (hdr # L)"
    using inv by (simp_all add: sl_inv_def)
  have newL: "new \<notin> set (hdr # L)" using new dom by simp
  have dg: "data g = data h0" using g by (simp add: relinked_def)
  have leng: "\<And>a. len g a = len h0 a" using dg by (rule data_len)
  have len0: "\<And>a. a \<noteq> new \<Longrightarrow> len h0 a = len h a" by (simp add: h0 len_def)
  have lennew: "len h0 new = Suc nl" by (simp add: h0 len_def)
  have old: "\<And>a. a \<in> set (hdr # L) \<Longrightarrow> a \<noteq> new" using newL by auto
  have domg: "dom g = insert new (dom h)" using data_dom [OF dg] by (simp add: h0)
  have kg: "\<And>a. a \<in> set L \<Longrightarrow> nkey g a = nkey h a"
  proof -
    fix a assume a: "a \<in> set L"
    then have "a \<in> dom h0" using dom by (auto simp: h0)
    then have "nkey g a = nkey h0 a" using dg by (intro data_nkey)
    then show "nkey g a = nkey h a" using old a by (simp add: h0 nkey_def)
  qed
  have vg: "\<And>a. a \<in> set L \<Longrightarrow> nval g a = nval h a"
  proof -
    fix a assume a: "a \<in> set L"
    then have "a \<in> dom h0" using dom by (auto simp: h0)
    then have "nval g a = nval h0 a" using dg by (intro data_nval)
    then show "nval g a = nval h a" using old a by (simp add: h0 nval_def)
  qed
  have "new \<in> dom h0" by (simp add: h0)
  then have knew: "nkey g new = key" and vnew: "nval g new = val"
    using data_nkey [OF dg, of new] data_nval [OF dg, of new] h0 by (simp_all add: nkey_def nval_def)
  have Tsub: "set ?T \<subseteq> set L" by (metis TD set_append sup_ge1)
  have Dsub: "set ?D \<subseteq> set L" by (metis TD set_append sup_ge2)
  have mT: "map (nkey g) ?T = map (nkey h) ?T" using kg Tsub by (intro map_cong) auto
  have mD: "map (nkey g) ?D = map (nkey h) ?D" using kg Dsub by (intro map_cong) auto
  have d1: "distinct (hdr # inserted h L key new)"
  proof -
    have "distinct ((hdr # ?T) @ new # ?D)"
    proof (rule distinct_insert_mid)
      show "distinct ((hdr # ?T) @ ?D)" using dist by simp
      show "new \<notin> set ((hdr # ?T) @ ?D)" using newL by simp
    qed
    then show ?thesis by (simp add: inserted_def)
  qed
  have setI: "set (inserted h L key new) = insert new (set L)"
  proof -
    have "set (inserted h L key new) = insert new (set (?T @ ?D))"
      unfolding inserted_def by (simp only: set_append list.set) blast
    then show ?thesis by simp
  qed
  have d2: "dom g = set (hdr # inserted h L key new)"
    using domg dom setI by auto
  have d3: "sorted_wrt (<) (map (nkey g) (inserted h L key new))"
  proof -
    have "sorted_wrt (<) (map (nkey h) ?T @ key # map (nkey h) ?D)"
      unfolding sorted_wrt_append
      using sorted_split [OF srt, of key] keys_after_miss [OF srt miss]
      by (auto dest: keys_before) (metis keys_before less_trans)
    then show ?thesis by (simp add: inserted_def mT mD knew)
  qed
  have d4: "len g hdr = Suc ml" using leng len0 [of hdr] newL lh by simp
  have d5: "\<forall>a\<in>set (inserted h L key new). 0 < len g a \<and> len g a \<le> Suc (max lvl nl)"
  proof
    fix a assume "a \<in> set (inserted h L key new)"
    then consider "a = new" | "a \<in> set L" using setI by auto
    then show "0 < len g a \<and> len g a \<le> Suc (max lvl nl)"
    proof cases
      case 1
      then show ?thesis using leng lennew by simp
    next
      case 2
      then have "len g a = len h a" using leng len0 old by simp
      then show ?thesis using lens 2 by auto
    qed
  qed
  have d6: "max lvl nl \<le> ml" using lvl nl by simp
  have d7: "\<And>j. linked g j (hdr # inserted h L key new)"
  proof -
    fix j
    show "linked g j (hdr # inserted h L key new)"
    proof (cases "j < Suc nl")
      case True
      then show ?thesis using g by (simp add: relinked_def)
    next
      case False
      then have fw: "\<forall>a. forward_at g a j = forward_at h0 a j" using g by (simp add: relinked_def)
      have "linked g j ((hdr # ?T) @ new # ?D) = linked h0 j ((hdr # ?T) @ new # ?D)"
        using fw leng by (intro linked_frame) simp
      also have "\<dots> = linked h0 j ((hdr # ?T) @ ?D)"
        using False lennew by (intro linked_invisible) simp
      also have "\<dots> = linked h j ((hdr # ?T) @ ?D)"
      proof (rule linked_frame, rule ballI)
        fix a assume "a \<in> set ((hdr # ?T) @ ?D)"
        then have "a \<in> set (hdr # L)" by (metis TD append_Cons)
        then have "a \<noteq> new" by (rule old)
        then show "len h0 a = len h a \<and> forward_at h0 a j = forward_at h a j"
          by (simp add: h0 len_def forward_at_def)
      qed
      finally show ?thesis using lk [of j] by (simp add: inserted_def)
    qed
  qed
  show "sl_inv g hdr ml (max lvl nl) (inserted h L key new)"
    unfolding sl_inv_def using d1 d2 d3 d4 d5 d6 d7 by blast
  have fT: "map (\<lambda>a. (nkey g a, nval g a)) ?T = map (\<lambda>a. (nkey h a, nval h a)) ?T"
    using kg vg Tsub by (intro map_cong) auto
  have fD: "map (\<lambda>a. (nkey g a, nval g a)) ?D = map (\<lambda>a. (nkey h a, nval h a)) ?D"
    using kg vg Dsub by (intro map_cong) auto
  have "key \<notin> fst ` set (map (\<lambda>a. (nkey h a, nval h a)) ?T)"
    by (auto dest: keys_before)
  then have "map_of (map (\<lambda>a. (nkey h a, nval h a)) ?T @ (key, val) # map (\<lambda>a. (nkey h a, nval h a)) ?D)
     = (map_of (map (\<lambda>a. (nkey h a, nval h a)) ?T @ map (\<lambda>a. (nkey h a, nval h a)) ?D))(key \<mapsto> val)"
    by (rule map_of_insert_mid)
  moreover have "map (\<lambda>a. (nkey g a, nval g a)) (?T @ new # ?D)
     = map (\<lambda>a. (nkey h a, nval h a)) ?T @ (key, val) # map (\<lambda>a. (nkey h a, nval h a)) ?D"
    by (simp add: fT fD knew vnew)
  moreover have "map (\<lambda>a. (nkey h a, nval h a)) L
     = map (\<lambda>a. (nkey h a, nval h a)) ?T @ map (\<lambda>a. (nkey h a, nval h a)) ?D"
    by (metis TD map_append)
  ultimately show "abs_map g (inserted h L key new) = (abs_map h L)(key \<mapsto> val)"
    unfolding abs_map_def inserted_def by (simp only:)
qed

lemma hdr_forward:
  assumes "sl_inv h hdr ml lvl L" "j \<le> ml"
  shows "forward_at h hdr j = Inr (find (\<lambda>b. j < len h b) L)"
proof -
  have "linked h j (hdr # L)" "j < len h hdr" using assms by (simp_all add: sl_inv_def)
  then show ?thesis by simp
qed

lemma sl_inv_lower:
  assumes "sl_inv h hdr ml lvl L" "\<forall>a\<in>set L. len h a \<le> Suc l" "l \<le> ml"
  shows "sl_inv h hdr ml l L"
  using assms unfolding sl_inv_def by auto

lemma sl_inv_raise:
  assumes "sl_inv h hdr ml lvl L" "lvl \<le> l" "l \<le> ml"
  shows "sl_inv h hdr ml l L"
  using assms unfolding sl_inv_def by auto

lemma sl_inv_remove:
  assumes inv: "sl_inv h hdr ml lvl L"
    and hit: "hit h L key = Some c"
    and g: "relinked h (hdr # removed h L key) (Suc lvl) g"
  shows "sl_inv (g(c := None)) hdr ml lvl (removed h L key)"
    and "abs_map (g(c := None)) (removed h L key) = (abs_map h L)(key := None)"
proof -
  let ?P = "\<lambda>b. nkey h b < key"
  let ?T = "takeWhile ?P L" and ?D = "tl (dropWhile ?P L)"
  let ?g = "g(c := None)"
  have D: "dropWhile ?P L = c # ?D" using hit by (rule hit_drop)
  have L: "L = ?T @ c # ?D" using D by (metis takeWhile_dropWhile_id)
  have R: "removed h L key = ?T @ ?D" by (simp add: removed_def)
  have dom: "dom h = set (hdr # L)" and dist: "distinct (hdr # L)"
    and srt: "sorted_wrt (<) (map (nkey h) L)"
    and lh: "len h hdr = Suc ml" and lens: "\<forall>a\<in>set L. 0 < len h a \<and> len h a \<le> Suc lvl"
    and lvl: "lvl \<le> ml" and lk: "\<And>i. linked h i (hdr # L)"
    using inv by (simp_all add: sl_inv_def)
  have dTD: "distinct (hdr # ?T @ c # ?D)" using dist L by simp
  have cT: "c \<notin> set ?T" and cD: "c \<notin> set ?D" and ch: "c \<noteq> hdr" using dTD by auto
  have cR: "c \<notin> set (hdr # ?T @ ?D)" using cT cD ch by simp
  have setL: "set L = insert c (set (?T @ ?D))"
  proof -
    have "set (?T @ c # ?D) = insert c (set (?T @ ?D))" by (simp only: set_append list.set) blast
    then show ?thesis using L by simp
  qed
  have sub: "set (?T @ ?D) \<subseteq> set L" using setL by blast
  have dg: "data g = data h" using g by (simp add: relinked_def)
  have leng: "\<And>a. len g a = len h a" using dg by (rule data_len)
  have keep: "\<And>a. a \<noteq> c \<Longrightarrow> len ?g a = len h a"
    using leng by (simp add: len_def)
  have d1: "distinct (hdr # removed h L key)" unfolding R using dTD by simp
  have d2: "dom ?g = set (hdr # removed h L key)"
  proof -
    have "dom ?g = dom h - {c}" using data_dom [OF dg] by simp
    also have "\<dots> = insert hdr (insert c (set (?T @ ?D))) - {c}" using dom setL by simp
    also have "\<dots> = set (hdr # ?T @ ?D)" using cR by auto
    finally show ?thesis unfolding R .
  qed
  have kg: "\<And>a. a \<in> set (?T @ ?D) \<Longrightarrow> nkey ?g a = nkey h a"
  proof -
    fix a assume a: "a \<in> set (?T @ ?D)"
    then have "a \<noteq> c" using cT cD by auto
    moreover have "a \<in> dom h" using a sub dom by auto
    then have "nkey g a = nkey h a" using dg by (intro data_nkey)
    ultimately show "nkey ?g a = nkey h a" by (simp add: nkey_def)
  qed
  have vg: "\<And>a. a \<in> set (?T @ ?D) \<Longrightarrow> nval ?g a = nval h a"
  proof -
    fix a assume a: "a \<in> set (?T @ ?D)"
    then have "a \<noteq> c" using cT cD by auto
    moreover have "a \<in> dom h" using a sub dom by auto
    then have "nval g a = nval h a" using dg by (intro data_nval)
    ultimately show "nval ?g a = nval h a" by (simp add: nval_def)
  qed
  have d3: "sorted_wrt (<) (map (nkey ?g) (removed h L key))"
  proof -
    have "map (nkey ?g) (?T @ ?D) = map (nkey h) (?T @ ?D)" using kg by (intro map_cong) auto
    moreover have "sorted_wrt (<) (map (nkey h) (?T @ c # ?D))" using srt L by simp
    then have "sorted_wrt (<) (map (nkey h) (?T @ ?D))"
      unfolding map_append sorted_wrt_append by auto
    ultimately show ?thesis unfolding R by metis
  qed
  have d4: "len ?g hdr = Suc ml" using keep [of hdr] ch lh by simp
  have d5: "\<forall>a\<in>set (removed h L key). 0 < len ?g a \<and> len ?g a \<le> Suc lvl"
    unfolding R
  proof
    fix a assume a: "a \<in> set (?T @ ?D)"
    then have "a \<noteq> c" using cT cD by auto
    then show "0 < len ?g a \<and> len ?g a \<le> Suc lvl" using keep lens a sub by auto
  qed
  have d7: "\<And>j. linked ?g j (hdr # removed h L key)"
  proof -
    fix j
    have "linked ?g j (hdr # ?T @ ?D) = linked g j (hdr # ?T @ ?D)"
    proof (rule linked_frame, rule ballI)
      fix a assume "a \<in> set (hdr # ?T @ ?D)"
      then have "a \<noteq> c" using cR by auto
      then show "len ?g a = len g a \<and> forward_at ?g a j = forward_at g a j"
        by (simp add: len_def forward_at_def)
    qed
    moreover have "linked g j (hdr # ?T @ ?D)"
    proof (cases "j < Suc lvl")
      case True
      then show ?thesis using g unfolding R by (simp add: relinked_def)
    next
      case False
      then have fw: "\<forall>a. forward_at g a j = forward_at h a j" using g by (simp add: relinked_def)
      have "\<not> j < len h c" using lens setL False by auto
      then have "linked h j ((hdr # ?T) @ c # ?D) = linked h j ((hdr # ?T) @ ?D)"
        by (rule linked_invisible)
      moreover have "linked h j ((hdr # ?T) @ c # ?D)" using lk [of j] L by simp
      moreover have "linked g j ((hdr # ?T) @ ?D) = linked h j ((hdr # ?T) @ ?D)"
        using fw leng by (intro linked_frame) simp
      ultimately show ?thesis by simp
    qed
    ultimately show "linked ?g j (hdr # removed h L key)" unfolding R by simp
  qed
  show "sl_inv ?g hdr ml lvl (removed h L key)"
    unfolding sl_inv_def using d1 d2 d3 d4 d5 lvl d7 by blast
  let ?f = "\<lambda>a. (nkey h a, nval h a)"
  have kc: "nkey h c = key" using hit hit_mem by blast
  have "key \<notin> fst ` set (map ?f ?T)" by (auto dest: keys_before)
  moreover have "key \<notin> fst ` set (map ?f ?D)"
    using keys_after_hit [OF srt hit] by force
  ultimately have "map_of (map ?f ?T @ map ?f ?D) = (map_of (map ?f ?T @ (key, nval h c) # map ?f ?D))(key := None)"
    by (rule map_of_remove_mid)
  moreover have "map (\<lambda>a. (nkey ?g a, nval ?g a)) (?T @ ?D) = map ?f ?T @ map ?f ?D"
  proof -
    have "map (\<lambda>a. (nkey ?g a, nval ?g a)) (?T @ ?D) = map ?f (?T @ ?D)"
      using kg vg by (intro map_cong) auto
    then show ?thesis by simp
  qed
  moreover have "map ?f L = map ?f ?T @ (key, nval h c) # map ?f ?D"
  proof -
    have "map ?f (?T @ c # ?D) = map ?f ?T @ (key, nval h c) # map ?f ?D" using kc by simp
    then show ?thesis using L by simp
  qed
  ultimately show "abs_map ?g (removed h L key) = (abs_map h L)(key := None)"
    unfolding abs_map_def R by (simp only:)
qed

lemma sl_inv_update:
  assumes inv: "sl_inv h hdr ml lvl L"
    and hit: "hit h L key = Some c"
    and g: "g = h(c := map_option (value'_update (\<lambda>_. val)) (h c))"
  shows "sl_inv g hdr ml lvl L"
    and "abs_map g L = (abs_map h L)(key \<mapsto> val)"
proof -
  let ?P = "\<lambda>b. nkey h b < key"
  let ?T = "takeWhile ?P L" and ?D = "tl (dropWhile ?P L)"
  have D: "dropWhile ?P L = c # ?D" using hit by (rule hit_drop)
  have L: "L = ?T @ c # ?D" using D by (metis takeWhile_dropWhile_id)
  have dom: "dom h = set (hdr # L)" and dist: "distinct (hdr # L)"
    and srt: "sorted_wrt (<) (map (nkey h) L)"
    using inv by (simp_all add: sl_inv_def)
  have cL: "c \<in> set L" using hit hit_mem by blast
  then obtain n where n: "h c = Some n" using dom by auto
  have dTD: "distinct (?T @ c # ?D)" using dist L by simp
  have cT: "c \<notin> set ?T" and cD: "c \<notin> set ?D" using dTD by auto
  have leng: "\<And>a. len g a = len h a" by (simp add: g len_def n)
  have fw: "\<And>a j. forward_at g a j = forward_at h a j" by (simp add: g forward_at_def n)
  have kg: "\<And>a. nkey g a = nkey h a" by (simp add: g nkey_def n)
  have vg: "\<And>a. a \<noteq> c \<Longrightarrow> nval g a = nval h a" by (simp add: g nval_def)
  have vc: "nval g c = val" by (simp add: g nval_def n)
  have kc: "nkey h c = key" using hit hit_mem by blast
  have dg: "dom g = dom h" using n by (auto simp: g)
  have km: "map (nkey g) L = map (nkey h) L" using kg by simp
  have lg: "\<And>j. linked g j (hdr # L) = linked h j (hdr # L)"
    using leng fw by (intro linked_frame) simp
  have "len (g :: ('a, 'b, 'c) heap) = len h" using leng by (rule ext)
  then show "sl_inv g hdr ml lvl L"
    using inv unfolding sl_inv_def dg km lg by simp
  let ?f = "\<lambda>a. (nkey h a, nval h a)"
  have nk: "key \<notin> fst ` set (map ?f ?T)" by (auto dest: keys_before)
  have "map (\<lambda>a. (nkey g a, nval g a)) ?T = map ?f ?T"
  proof (rule map_cong [OF refl])
    fix a assume "a \<in> set ?T"
    then have "a \<noteq> c" using cT by auto
    then show "(nkey g a, nval g a) = (nkey h a, nval h a)" using kg vg by simp
  qed
  moreover have "map (\<lambda>a. (nkey g a, nval g a)) ?D = map ?f ?D"
  proof (rule map_cong [OF refl])
    fix a assume "a \<in> set ?D"
    then have "a \<noteq> c" using cD by auto
    then show "(nkey g a, nval g a) = (nkey h a, nval h a)" using kg vg by simp
  qed
  ultimately have "map (\<lambda>a. (nkey g a, nval g a)) (?T @ c # ?D) = map ?f ?T @ (key, val) # map ?f ?D"
    using kg vc kc by simp
  moreover have "map ?f (?T @ c # ?D) = map ?f ?T @ (key, nval h c) # map ?f ?D"
    using kc by simp
  moreover have "map_of (map ?f ?T @ (key, val) # map ?f ?D) = (map_of (map ?f ?T @ map ?f ?D))(key \<mapsto> val)"
    using nk by (rule map_of_insert_mid)
  moreover have "map_of (map ?f ?T @ (key, nval h c) # map ?f ?D) = (map_of (map ?f ?T @ map ?f ?D))(key \<mapsto> nval h c)"
    using nk by (rule map_of_insert_mid)
  ultimately have "map_of (map (\<lambda>a. (nkey g a, nval g a)) (?T @ c # ?D))
     = (map_of (map ?f (?T @ c # ?D)))(key \<mapsto> val)" by (simp only: fun_upd_upd)
  then show "abs_map g L = (abs_map h L)(key \<mapsto> val)"
    unfolding abs_map_def using L by simp
qed

lemma unat_of_nat8: "n < 256 \<Longrightarrow> unat (of_nat n :: 8 word) = n"
  by (simp add: unat_of_nat)

lemma uint_of_nat8: "n < 256 \<Longrightarrow> uint (of_nat n :: 8 word) = int n"
  by (simp add: uint_nat unat_of_nat8)

lemma of_nat_le8: "m < 256 \<Longrightarrow> n < 256 \<Longrightarrow> ((of_nat m :: 8 word) \<le> of_nat n) = (m \<le> n)"
  by (simp add: word_le_nat_alt unat_of_nat8)

lemma of_nat_less8: "m < 256 \<Longrightarrow> n < 256 \<Longrightarrow> ((of_nat m :: 8 word) < of_nat n) = (m < n)"
  by (simp add: word_less_nat_alt unat_of_nat8)

lemma unat_lt_256: "unat (w :: 8 word) < 256"
  using unsigned_less [of w] by simp

lemma get_random_level_loop_le:
  "k \<le> ml \<Longrightarrow> fst (get_random_level_loop ml g k) \<le> ml"
proof (induction ml g k rule: get_random_level_loop.induct)
  case (1 ml g k)
  show ?case
  proof (cases "g 0 \<and> k < ml")
    case True
    then have "k + 1 \<le> ml" by (simp add: inc_le)
    then have "fst (get_random_level_loop ml (\<lambda>n. g (Suc n)) (k + 1)) \<le> ml"
      using True by (intro "1.IH") simp_all
    then show ?thesis using True by (subst get_random_level_loop.simps) simp
  next
    case False
    then show ?thesis using "1.prems" by (subst get_random_level_loop.simps) auto
  qed
qed

lemma get_random_level_le: "fst (get_random_level s) \<le> max_level' s"
proof (cases "get_random_level_loop (max_level' s) (gen' s) 0")
  case (Pair k g)
  then show ?thesis
    using get_random_level_loop_le [of 0 "max_level' s" "gen' s"]
    by (simp add: get_random_level_def)
qed

lemma raise_update_loop_run:
  assumes "nl < 255" "i \<le> Suc nl" "Suc nl \<le> length upd"
  shows "raise_update_loop hdr (of_nat nl) (of_nat i) upd
     = Some (Inr (map (\<lambda>j. if i \<le> j \<and> j \<le> nl then Some hdr else upd ! j) [0..<length upd]))"
  using assms(2,3)
proof (induction "Suc nl - i" arbitrary: i upd)
  case 0
  then have i: "i = Suc nl" by simp
  have "uint (of_nat i :: 8 word) = int i" "uint (of_nat nl :: 8 word) = int nl"
    using assms(1) i by (simp_all only: uint_of_nat8)
  then have "\<not> uint (of_nat i :: 8 word) < uint (of_nat nl :: 8 word) + 1"
    using i by simp
  moreover have "map (\<lambda>j. if i \<le> j \<and> j \<le> nl then Some hdr else upd ! j) [0..<length upd] = upd"
    using i by (auto intro!: nth_equalityI)
  ultimately show ?case by (subst raise_update_loop.simps) simp
next
  case (Suc n)
  then have i: "i \<le> nl" by simp
  have "uint (of_nat i :: 8 word) = int i" "uint (of_nat nl :: 8 word) = int nl"
    using assms(1) i by (simp_all only: uint_of_nat8)
  then have c: "uint (of_nat i :: 8 word) < uint (of_nat nl :: 8 word) + 1"
    using i by simp
  have u: "unat (of_nat i :: 8 word) = i" using assms(1) i by (simp add: unat_of_nat8)
  have l: "i < length upd" using i Suc.prems by simp
  have "raise_update_loop hdr (of_nat nl) (of_nat i) upd
      = raise_update_loop hdr (of_nat nl) (of_nat (Suc i)) (upd[i := Some hdr])"
    using c u l by (subst raise_update_loop.simps) (simp add: add.commute)
  also have "\<dots> = Some (Inr (map (\<lambda>j. if Suc i \<le> j \<and> j \<le> nl then Some hdr else upd[i := Some hdr] ! j)
       [0..<length (upd[i := Some hdr])]))"
    using Suc i by (intro Suc.hyps(1)) simp_all
  also have "map (\<lambda>j. if Suc i \<le> j \<and> j \<le> nl then Some hdr else upd[i := Some hdr] ! j)
       [0..<length (upd[i := Some hdr])]
     = map (\<lambda>j. if i \<le> j \<and> j \<le> nl then Some hdr else upd ! j) [0..<length upd]"
    using i l by (auto intro!: nth_equalityI simp: nth_list_update)
  finally show ?case .
qed

lemma raise_update_loop_never:
  assumes "raise_update_loop hdr nl i upd = Some r"
  shows "nl = 255 \<longrightarrow> length upd = 256 \<longrightarrow> False"
proof (rule raise_update_loop.raw_induct
    [where P = "\<lambda>hdr nl i upd r. nl = 255 \<longrightarrow> length upd = 256 \<longrightarrow> False", OF _ assms])
  fix f :: "nat \<Rightarrow> 8 word \<Rightarrow> 8 word \<Rightarrow> nat option list \<Rightarrow> (fault + nat option list) option"
  fix hdr nl i upd r
  assume IH: "\<And>a b c d y. f a b c d = Some y \<Longrightarrow> b = 255 \<longrightarrow> length d = 256 \<longrightarrow> False"
    and eq: "(if uint i < uint nl + 1
         then if unat i < length upd then f hdr nl (i + 1) (upd[unat i := Some hdr])
              else Some (Inl OutOfBounds)
         else Some (Inr upd)) = Some r"
  show "nl = 255 \<longrightarrow> length upd = 256 \<longrightarrow> False"
  proof (intro impI)
    assume nl: "nl = 255" and len: "length upd = 256"
    have "uint i < uint nl + 1" using uint_lt2p [of i] nl by simp
    moreover have "unat i < length upd" using unat_lt_256 [of i] len by simp
    ultimately have "f hdr nl (i + 1) (upd[unat i := Some hdr]) = Some r" using eq by simp
    from IH [OF this] show False using nl len by simp
  qed
qed

lemma raise_update_loop_diverges:
  assumes "length upd = 256"
  shows "raise_update_loop hdr 255 i upd = None"
  using raise_update_loop_never [of hdr 255 i upd] assms
  by (cases "raise_update_loop hdr 255 i upd") auto

lemma splice_loop_run:
  assumes "nl < 255" "i \<le> Suc nl"
  shows "splice_loop h upd new (of_nat nl) (of_nat i)
     = Some (levels_from (\<lambda>g i. splice_level g upd new i) (Suc nl - i) i h)"
  using assms(2)
proof (induction "Suc nl - i" arbitrary: i h)
  case 0
  then have i: "i = Suc nl" by simp
  have "\<not> (of_nat i :: 8 word) \<le> of_nat nl"
    using assms(1) i of_nat_le8 [of i nl] by simp
  then show ?case using 0 by (subst splice_loop.simps) simp
next
  case (Suc n)
  then have i: "i \<le> nl" and n: "Suc nl - i = Suc n" "n = Suc nl - Suc i" by simp_all
  have c: "(of_nat i :: 8 word) \<le> of_nat nl"
    using assms(1) i of_nat_le8 [of i nl] by simp
  have u: "unat (of_nat i :: 8 word) = i" using assms(1) i by (simp add: unat_of_nat8)
  have s: "(of_nat i :: 8 word) + 1 = of_nat (Suc i)" by simp
  show ?case
  proof (cases "splice_level h upd new i")
    case (Inl e)
    then show ?thesis using c u n by (subst splice_loop.simps) simp
  next
    case (Inr h')
    have "splice_loop h upd new (of_nat nl) (of_nat i)
        = splice_loop h' upd new (of_nat nl) (of_nat (Suc i))"
      using c u Inr by (subst splice_loop.simps) (simp only: s if_True sum.case)
    also have "\<dots> = Some (levels_from (\<lambda>g i. splice_level g upd new i) (Suc nl - Suc i) (Suc i) h')"
      using n i by (intro Suc.hyps(1)) simp_all
    finally show ?thesis using Inr n by simp
  qed
qed

lemma unlink_loop_run:
  assumes "t < 255" "i \<le> Suc t"
  shows "unlink_loop h upd c (of_nat t) (of_nat i)
     = Some (levels_from (\<lambda>g i. unlink_level g upd c i) (Suc t - i) i h)"
  using assms(2)
proof (induction "Suc t - i" arbitrary: i h)
  case 0
  then have i: "i = Suc t" by simp
  have "\<not> (of_nat i :: 8 word) \<le> of_nat t"
    using assms(1) i of_nat_le8 [of i t] by simp
  then show ?case using 0 by (subst unlink_loop.simps) simp
next
  case (Suc n)
  then have i: "i \<le> t" and n: "Suc t - i = Suc n" "n = Suc t - Suc i" by simp_all
  have le: "(of_nat i :: 8 word) \<le> of_nat t"
    using assms(1) i of_nat_le8 [of i t] by simp
  have u: "unat (of_nat i :: 8 word) = i" using assms(1) i by (simp add: unat_of_nat8)
  have s: "(of_nat i :: 8 word) + 1 = of_nat (Suc i)" by simp
  show ?case
  proof (cases "unlink_level h upd c i")
    case (Inl e)
    then show ?thesis using le u n by (subst unlink_loop.simps) simp
  next
    case (Inr h')
    have "unlink_loop h upd c (of_nat t) (of_nat i)
        = unlink_loop h' upd c (of_nat t) (of_nat (Suc i))"
      using le u Inr by (subst unlink_loop.simps) (simp only: s if_True sum.case)
    also have "\<dots> = Some (levels_from (\<lambda>g i. unlink_level g upd c i) (Suc t - Suc i) (Suc i) h')"
      using n i by (intro Suc.hyps(1)) simp_all
    finally show ?thesis using Inr n by simp
  qed
qed

lemma lowered_le: "lowered h L l \<le> l"
  by (induction l) auto

lemma lowered_bound:
  "\<forall>a\<in>set L. len h a \<le> Suc l \<Longrightarrow> \<forall>a\<in>set L. len h a \<le> Suc (lowered h L l)"
proof (induction l)
  case 0
  then show ?case by simp
next
  case (Suc l)
  show ?case
  proof (cases "find (\<lambda>b. Suc l < len h b) L = None")
    case True
    then have "\<forall>a\<in>set L. len h a \<le> Suc l" by (auto simp: find_None_iff not_less)
    then show ?thesis using Suc.IH True by simp
  next
    case False
    then show ?thesis using Suc.prems by auto
  qed
qed

lemma lower_level_run:
  assumes "sl_inv h hdr ml lvl L" "l \<le> ml" "l < 256"
  shows "lower_level h hdr (of_nat l) = Inr (of_nat (lowered h L l))"
  using assms(2,3)
proof (induction l)
  case 0
  then show ?case by (subst lower_level.simps) simp
next
  case (Suc l)
  have pos: "(0 :: 8 word) < of_nat (Suc l)"
    using Suc.prems of_nat_less8 [of 0 "Suc l"] by simp
  have u: "unat (of_nat (Suc l) :: 8 word) = Suc l" using Suc.prems by (intro unat_of_nat8)
  have m: "(of_nat (Suc l) :: 8 word) - 1 = of_nat l" by simp
  have fw: "forward_at h hdr (Suc l) = Inr (find (\<lambda>b. Suc l < len h b) L)"
    using assms(1) Suc.prems by (intro hdr_forward) simp_all
  show ?case
  proof (cases "find (\<lambda>b. Suc l < len h b) L")
    case None
    have "lower_level h hdr (of_nat (Suc l)) = lower_level h hdr (of_nat l)"
      using pos None by (subst lower_level.simps) (simp only: u fw m if_True sum.case option.case)
    then show ?thesis using Suc None by simp
  next
    case (Some b)
    have "lower_level h hdr (of_nat (Suc l)) = Inr (of_nat (Suc l))"
      using pos Some by (subst lower_level.simps) (simp only: u fw m if_True sum.case option.case)
    then show ?thesis using Some by simp
  qed
qed

lemma xsf_inv_sl:
  "xsf_inv s L \<Longrightarrow>
     sl_inv (cells s) (header' s) (unat (max_level' s)) (unat (skip_list_level' s)) L"
  by (simp add: xsf_inv_def)

lemma search_phase:
  assumes "xsf_inv s L"
  shows "search_update_loop (cells s) key (uint (skip_list_level' s)) (header' s)
           (replicate (unat (max_level' s) + 1) None)
     = Some (Inr (pred_at (cells s) (header' s) L key 0,
          trail (cells s) (header' s) L key (unat (skip_list_level' s)) (Suc (unat (max_level' s)))))"
proof -
  have e: "uint (skip_list_level' s) = int (unat (skip_list_level' s))" by (rule uint_nat)
  have r: "unat (max_level' s) + 1 = Suc (unat (max_level' s))" by simp
  show ?thesis
    unfolding e r by (rule search_update_loop_inv [OF xsf_inv_sl [OF assms]])
qed

lemma get_spec:
  assumes "xsf_inv s L"
  shows "get key s = Some (Inr (abs_map (cells s) L key))"
proof -
  note inv = xsf_inv_sl [OF assms]
  have srt: "sorted_wrt (<) (map (nkey (cells s)) L)" and dom: "dom (cells s) = set (header' s # L)"
    using inv by (simp_all add: sl_inv_def)
  have e: "uint (skip_list_level' s) = int (unat (skip_list_level' s))" by (rule uint_nat)
  have 1: "search_loop (cells s) key (uint (skip_list_level' s)) (header' s)
      = Some (Inr (pred_at (cells s) (header' s) L key 0))"
    unfolding e by (rule search_loop_inv [OF inv])
  note 2 = candidate [OF inv, of key]
  note 3 = match_key_candidate [OF inv, of key]
  show ?thesis
  proof (cases "hit (cells s) L key")
    case None
    then show ?thesis
      using 1 2 3 abs_map_hit [OF srt, of key] by (simp add: get_def)
  next
    case (Some c)
    then have "c \<in> set L" using hit_mem by blast
    then obtain n where n: "cells s c = Some n" using dom by auto
    then have "map_option value' (cells s c) = Some (nval (cells s) c)" by (simp add: nval_def)
    then show ?thesis
      using 1 2 3 Some abs_map_hit [OF srt, of key] by (simp add: get_def)
  qed
qed

lemma put_search:
  assumes "xsf_inv s L"
  shows "put key val s =
     (case hit (cells s) L key of
        Some c \<Rightarrow> Some (Inr (s\<lparr>cells := (cells s)(c := map_option (value'_update (\<lambda>_. val)) (cells s c))\<rparr>))
      | None \<Rightarrow> insert_node key val
          (trail (cells s) (header' s) L key (unat (skip_list_level' s)) (Suc (unat (max_level' s)))) s)"
  using search_phase [OF assms, of key] candidate [OF xsf_inv_sl [OF assms], of key]
    match_key_candidate [OF xsf_inv_sl [OF assms], of key]
  by (simp add: put_def split: option.splits)

lemma put_hit_inv:
  assumes "xsf_inv s L" "hit (cells s) L key = Some c"
  shows "xsf_inv (s\<lparr>cells := (cells s)(c := map_option (value'_update (\<lambda>_. val)) (cells s c))\<rparr>) L"
    and "abs_map ((cells s)(c := map_option (value'_update (\<lambda>_. val)) (cells s c))) L
       = (abs_map (cells s) L)(key \<mapsto> val)"
proof -
  let ?g = "(cells s)(c := map_option (value'_update (\<lambda>_. val)) (cells s c))"
  note inv = xsf_inv_sl [OF assms(1)]
  from sl_inv_update [OF inv assms(2) refl, of val]
  have a: "sl_inv ?g (header' s) (unat (max_level' s)) (unat (skip_list_level' s)) L"
    and b: "abs_map ?g L = (abs_map (cells s) L)(key \<mapsto> val)" by simp_all
  show "abs_map ?g L = (abs_map (cells s) L)(key \<mapsto> val)" by (rule b)
  have "dom ?g = dom (cells s)" using a inv by (simp add: sl_inv_def)
  moreover have "\<forall>a n. ?g a = Some n \<longrightarrow> length (forward' n) = Suc (unat (node_level' n))"
    using assms(1) by (auto simp: xsf_inv_def split: if_splits)
  ultimately show "xsf_inv (s\<lparr>cells := ?g\<rparr>) L"
    using assms(1) a unfolding xsf_inv_def by simp
qed

lemma trail_length: "length (trail h hdr L key t n) = n"
  by (simp add: trail_def)

lemma trail_nth: "j \<le> t \<Longrightarrow> j < n \<Longrightarrow> trail h hdr L key t n ! j = Some (pred_at h hdr L key j)"
  by (simp add: trail_def)

lemma raise_phase:
  assumes inv: "sl_inv h hdr ml lvl L" and lvl: "lvl < nl" and nl: "nl \<le> ml" "nl < 255"
  shows "raise_update_loop hdr (of_nat nl) (of_nat lvl + 1) (trail h hdr L key lvl (Suc ml))
     = Some (Inr (trail h hdr L key nl (Suc ml)))"
proof -
  have top: "\<And>j. lvl < j \<Longrightarrow> pred_at h hdr L key j = hdr"
    using inv by (intro pred_at_top) (auto simp: sl_inv_def)
  have s: "(of_nat lvl :: 8 word) + 1 = of_nat (Suc lvl)" by simp
  have "raise_update_loop hdr (of_nat nl) (of_nat (Suc lvl)) (trail h hdr L key lvl (Suc ml))
     = Some (Inr (map (\<lambda>j. if Suc lvl \<le> j \<and> j \<le> nl then Some hdr
           else trail h hdr L key lvl (Suc ml) ! j) [0..<length (trail h hdr L key lvl (Suc ml))]))"
    using nl lvl by (intro raise_update_loop_run) (simp_all add: trail_length)
  moreover have "map (\<lambda>j. if Suc lvl \<le> j \<and> j \<le> nl then Some hdr
           else trail h hdr L key lvl (Suc ml) ! j) [0..<length (trail h hdr L key lvl (Suc ml))]
     = trail h hdr L key nl (Suc ml)"
    using lvl top by (auto intro!: nth_equalityI simp: trail_def simp del: upt_Suc)
  ultimately show ?thesis unfolding s by simp
qed

lemma trail_raise:
  assumes inv: "sl_inv h hdr ml lvl L" and j: "j \<le> max lvl nl" "j \<le> ml"
  shows "trail h hdr L key (max lvl nl) (Suc ml) ! j = Some (pred_at h hdr L key j)"
  using j by (intro trail_nth) simp_all

lemma splice_phase:
  assumes inv: "sl_inv h hdr ml lvl L"
    and new: "new \<notin> dom h"
    and h0: "h0 = h(new \<mapsto> nd)" "length (forward' nd) = Suc nl" "key' nd = key" "value' nd = val"
    and nl: "nl \<le> ml" "nl < 255" and t: "nl \<le> t"
    and miss: "hit h L key = None"
  shows "\<exists>g. splice_loop h0 (trail h hdr L key t (Suc ml)) new (of_nat nl) 0 = Some (Inr g) \<and>
     data g = data h0 \<and>
     sl_inv g hdr ml (max lvl nl) (inserted h L key new) \<and>
     abs_map g (inserted h L key new) = (abs_map h L)(key \<mapsto> val)"
proof -
  let ?upd = "trail h hdr L key t (Suc ml)"
  have run: "splice_loop h0 ?upd new (of_nat nl) (of_nat 0)
     = Some (levels_from (\<lambda>g i. splice_level g ?upd new i) (Suc nl - 0) 0 h0)"
    using nl(2) by (intro splice_loop_run) simp_all
  have "\<exists>g'. levels_from (\<lambda>g i. splice_level g ?upd new i) (Suc nl) 0 h0 = Inr g' \<and>
     relinked h0 (hdr # inserted h L key new) (Suc nl) g'"
  proof (rule splice_levels [OF inv new h0(1,2) nl(1)])
    show "Suc nl \<le> length ?upd" using nl(1) by (simp add: trail_length)
    show "\<forall>j\<le>nl. ?upd ! j = Some (pred_at h hdr L key j)"
      using nl(1) t by (auto intro!: trail_nth)
    show "relinked h0 (hdr # inserted h L key new) 0 h0" by (rule relinked_0)
    show "0 + Suc nl = Suc nl" by simp
  qed
  then obtain g where g: "levels_from (\<lambda>g i. splice_level g ?upd new i) (Suc nl) 0 h0 = Inr g"
    "relinked h0 (hdr # inserted h L key new) (Suc nl) g" by blast
  have "splice_loop h0 ?upd new (of_nat nl) 0 = Some (Inr g)" using run g(1) by simp
  moreover have "data g = data h0" using g(2) by (simp add: relinked_def)
  moreover note sl_inv_insert [OF inv new h0 nl(1) miss g(2)]
  ultimately show ?thesis by blast
qed

lemma get_random_level_state:
  "\<exists>g. get_random_level s = (fst (get_random_level s), s\<lparr>gen' := g\<rparr>)"
  by (cases "get_random_level_loop (max_level' s) (gen' s) 0") (auto simp: get_random_level_def)

lemma unat_max8: "unat (max a b :: 8 word) = max (unat a) (unat b)"
  by (simp add: max_def word_le_nat_alt)

lemma raise_step:
  assumes inv: "xsf_inv s L" and s1: "s1 = s\<lparr>gen' := g\<rparr>" and nl: "nl \<le> max_level' s"
  shows "(if skip_list_level' s1 < nl
          then map_option (map_sum id (\<lambda>u. (u, s1\<lparr>skip_list_level' := nl\<rparr>)))
                 (raise_update_loop (header' s1) nl (skip_list_level' s1 + 1)
                    (trail (cells s) (header' s) L key (unat (skip_list_level' s)) (Suc (unat (max_level' s)))))
          else Some (Inr (trail (cells s) (header' s) L key (unat (skip_list_level' s)) (Suc (unat (max_level' s))), s1)))
     = (if unat nl = 255 then None
        else Some (Inr (trail (cells s) (header' s) L key (max (unat (skip_list_level' s)) (unat nl))
                          (Suc (unat (max_level' s))), raised s1 nl)))"
proof -
  note sl = xsf_inv_sl [OF inv]
  let ?lvl = "unat (skip_list_level' s)" and ?ml = "unat (max_level' s)" and ?n = "unat nl"
  have lvl: "?lvl < 255" using inv by (simp add: xsf_inv_def)
  have nml: "?n \<le> ?ml" using nl by (simp add: word_le_nat_alt)
  have ml: "?ml < 256" by (rule unat_lt_256)
  have w1: "of_nat ?n = nl" and w2: "of_nat ?lvl = skip_list_level' s" by simp_all
  show ?thesis
  proof (cases "skip_list_level' s < nl")
    case False
    then have le: "?n \<le> ?lvl" by (simp add: word_less_nat_alt)
    then have "?n \<noteq> 255" using lvl by simp
    moreover have "max ?lvl ?n = ?lvl" using le by simp
    moreover have "max (skip_list_level' s) nl = skip_list_level' s"
      using False by (simp add: max_def)
    ultimately show ?thesis using False by (simp add: s1 raised_def)
  next
    case True
    then have lt: "?lvl < ?n" by (simp add: word_less_nat_alt)
    have mx: "max ?lvl ?n = ?n" "max (skip_list_level' s) nl = nl"
      using lt True by (auto simp: max_def)
    show ?thesis
    proof (cases "?n = 255")
      case n: True
      then have "nl = 255" using w1 by (metis of_nat_numeral)
      moreover have "?ml = 255" using n nml ml by simp
      then have "length (trail (cells s) (header' s) L key ?lvl (Suc ?ml)) = 256"
        by (simp add: trail_length)
      ultimately have "raise_update_loop (header' s) nl (skip_list_level' s + 1)
          (trail (cells s) (header' s) L key ?lvl (Suc ?ml)) = None"
        by (simp only: raise_update_loop_diverges)
      then show ?thesis using True n by (simp add: s1)
    next
      case n: False
      then have "?n < 255" using unat_lt_256 [of nl] by simp
      from raise_phase [OF sl lt nml this, of key]
      have "raise_update_loop (header' s) nl (skip_list_level' s + 1)
          (trail (cells s) (header' s) L key ?lvl (Suc ?ml))
         = Some (Inr (trail (cells s) (header' s) L key ?n (Suc ?ml)))"
        by (simp only: w1 w2)
      then show ?thesis using True n mx by (simp add: s1 raised_def)
    qed
  qed
qed

lemma insert_node_spec:
  fixes s :: "('k::linorder, 'v) XSFSkipList" and key :: 'k and val :: 'v and nl :: "8 word"
    and L :: "addr list"
  assumes inv: "xsf_inv s L" and miss: "hit (cells s) L key = None"
    and grl: "get_random_level s = (nl, s1)"
  defines "tr \<equiv> trail (cells s) (header' s) L key (unat (skip_list_level' s)) (Suc (unat (max_level' s)))"
  defines "h0 \<equiv> (cells s)(next_addr s \<mapsto>
      \<lparr>key' = key, value' = val, forward' = replicate (Suc (unat nl)) None, node_level' = nl\<rparr>)"
  shows "unat nl = 255 \<longrightarrow> insert_node key val tr s = None"
    and "unat nl \<noteq> 255 \<longrightarrow> room s = 0 \<longrightarrow>
           insert_node key val tr s = Some (Inl (BadAlloc, raised s1 nl))"
    and "unat nl \<noteq> 255 \<longrightarrow> room s \<noteq> 0 \<longrightarrow>
           (\<exists>g. insert_node key val tr s =
                  Some (Inr ((raised s1 nl)\<lparr>cells := g, next_addr := Suc (next_addr s),
                     room := room s - 1, element_count' := element_count' s + 1\<rparr>)) \<and>
                data g = data h0 \<and>
                sl_inv g (header' s) (unat (max_level' s))
                  (max (unat (skip_list_level' s)) (unat nl)) (inserted (cells s) L key (next_addr s)) \<and>
                abs_map g (inserted (cells s) L key (next_addr s)) = (abs_map (cells s) L)(key \<mapsto> val))"
proof -
  note sl = xsf_inv_sl [OF inv]
  from get_random_level_state [of s] grl obtain g where s1: "s1 = s\<lparr>gen' := g\<rparr>" by auto
  have nl: "nl \<le> max_level' s" using get_random_level_le [of s] grl by simp
  have nml: "unat nl \<le> unat (max_level' s)" using nl by (simp add: word_le_nat_alt)
  note rs = raise_step [OF inv s1 nl, of key]
  have fresh: "next_addr s \<notin> dom (cells s)" using inv by (auto simp: xsf_inv_def)
  have fields: "room (raised s1 nl) = room s" "next_addr (raised s1 nl) = next_addr s"
    "cells (raised s1 nl) = cells s" "element_count' (raised s1 nl) = element_count' s"
    by (simp_all add: raised_def s1)
  show "unat nl = 255 \<longrightarrow> insert_node key val tr s = None"
    using rs by (simp add: insert_node_def grl tr_def)
  show "unat nl \<noteq> 255 \<longrightarrow> room s = 0 \<longrightarrow>
           insert_node key val tr s = Some (Inl (BadAlloc, raised s1 nl))"
    using rs by (simp add: insert_node_def grl tr_def new_Node_def fields)
  show "unat nl \<noteq> 255 \<longrightarrow> room s \<noteq> 0 \<longrightarrow>
           (\<exists>g. insert_node key val tr s =
                  Some (Inr ((raised s1 nl)\<lparr>cells := g, next_addr := Suc (next_addr s),
                     room := room s - 1, element_count' := element_count' s + 1\<rparr>)) \<and>
                data g = data h0 \<and>
                sl_inv g (header' s) (unat (max_level' s))
                  (max (unat (skip_list_level' s)) (unat nl)) (inserted (cells s) L key (next_addr s)) \<and>
                abs_map g (inserted (cells s) L key (next_addr s)) = (abs_map (cells s) L)(key \<mapsto> val))"
  proof (intro impI)
    assume n: "unat nl \<noteq> 255" and room: "room s \<noteq> 0"
    have n255: "unat nl < 255" using n unat_lt_256 [of nl] by simp
    have "\<exists>g. splice_loop h0 (trail (cells s) (header' s) L key (max (unat (skip_list_level' s)) (unat nl))
            (Suc (unat (max_level' s)))) (next_addr s) (of_nat (unat nl)) 0 = Some (Inr g) \<and>
        data g = data h0 \<and>
        sl_inv g (header' s) (unat (max_level' s)) (max (unat (skip_list_level' s)) (unat nl))
          (inserted (cells s) L key (next_addr s)) \<and>
        abs_map g (inserted (cells s) L key (next_addr s)) = (abs_map (cells s) L)(key \<mapsto> val)"
    proof (rule splice_phase [OF sl fresh _ _ _ _ nml n255 _ miss])
      show "h0 = (cells s)(next_addr s \<mapsto>
          \<lparr>key' = key, value' = val, forward' = replicate (Suc (unat nl)) None, node_level' = nl\<rparr>)"
        unfolding h0_def by (rule refl)
      show "length (forward' \<lparr>key' = key, value' = val,
          forward' = replicate (Suc (unat nl)) None, node_level' = nl\<rparr>) = Suc (unat nl)"
        by simp
      show "key' \<lparr>key' = key, value' = val,
          forward' = replicate (Suc (unat nl)) None, node_level' = nl\<rparr> = key" by simp
      show "value' \<lparr>key' = key, value' = val,
          forward' = replicate (Suc (unat nl)) None, node_level' = nl\<rparr> = val" by simp
      show "unat nl \<le> max (unat (skip_list_level' s)) (unat nl)" by simp
    qed
    then obtain g' where g': "splice_loop h0 (trail (cells s) (header' s) L key
            (max (unat (skip_list_level' s)) (unat nl)) (Suc (unat (max_level' s)))) (next_addr s) nl 0
          = Some (Inr g')"
       "data g' = data h0"
       "sl_inv g' (header' s) (unat (max_level' s)) (max (unat (skip_list_level' s)) (unat nl))
          (inserted (cells s) L key (next_addr s))"
       "abs_map g' (inserted (cells s) L key (next_addr s)) = (abs_map (cells s) L)(key \<mapsto> val)"
      by auto
    have "insert_node key val tr s =
        Some (Inr ((raised s1 nl)\<lparr>cells := g', next_addr := Suc (next_addr s),
                     room := room s - 1, element_count' := element_count' s + 1\<rparr>))"
      using rs n room g'(1)
      by (simp add: insert_node_def grl tr_def new_Node_def fields h0_def)
    then show "\<exists>g. insert_node key val tr s =
                  Some (Inr ((raised s1 nl)\<lparr>cells := g, next_addr := Suc (next_addr s),
                     room := room s - 1, element_count' := element_count' s + 1\<rparr>)) \<and>
                data g = data h0 \<and>
                sl_inv g (header' s) (unat (max_level' s))
                  (max (unat (skip_list_level' s)) (unat nl)) (inserted (cells s) L key (next_addr s)) \<and>
                abs_map g (inserted (cells s) L key (next_addr s)) = (abs_map (cells s) L)(key \<mapsto> val)"
      using g'(2,3,4) by blast
  qed
qed

lemma data_levels:
  assumes "data g = data h" "\<forall>a n. h a = Some n \<longrightarrow> length (forward' n) = Suc (unat (node_level' n))"
  shows "\<forall>a n. g a = Some n \<longrightarrow> length (forward' n) = Suc (unat (node_level' n))"
proof (intro allI impI)
  fix a n assume n: "g a = Some n"
  have "data g a = data h a" using assms(1) by simp
  then obtain m where "h a = Some m" "length (forward' m) = length (forward' n)"
    "node_level' m = node_level' n" using n by (cases "h a") (auto simp: data_def)
  then show "length (forward' n) = Suc (unat (node_level' n))" using assms(2) by metis
qed

lemma length_inserted: "length (inserted h L key new) = Suc (length L)"
proof -
  have "length (takeWhile (\<lambda>b. nkey h b < key) L) + length (dropWhile (\<lambda>b. nkey h b < key) L) = length L"
    by (metis length_append takeWhile_dropWhile_id)
  then show ?thesis unfolding inserted_def by simp
qed

lemma length_removed:
  assumes "hit h L key = Some c"
  shows "length L = Suc (length (removed h L key))"
proof -
  have "L = takeWhile (\<lambda>b. nkey h b < key) L @ c # tl (dropWhile (\<lambda>b. nkey h b < key) L)"
    using hit_drop [OF assms] by (metis takeWhile_dropWhile_id)
  then have "length L = length (takeWhile (\<lambda>b. nkey h b < key) L @ c # tl (dropWhile (\<lambda>b. nkey h b < key) L))"
    by simp
  then show ?thesis unfolding removed_def by simp
qed

lemma put_step:
  fixes s :: "('k::linorder, 'v) XSFSkipList"
  assumes inv: "xsf_inv s L" and put: "put key val s = Some (Inr s')"
  shows "\<exists>L'. xsf_inv s' L' \<and> abs_map (cells s') L' = (abs_map (cells s) L)(key \<mapsto> val) \<and>
           length L' + room s' = length L + room s"
    and "max_level' s' = max_level' s" and "header' s' = header' s" and "room s \<le> Suc (room s')"
proof -
  have "(\<exists>L'. xsf_inv s' L' \<and> abs_map (cells s') L' = (abs_map (cells s) L)(key \<mapsto> val) \<and>
           length L' + room s' = length L + room s) \<and>
     max_level' s' = max_level' s \<and> header' s' = header' s \<and> room s \<le> Suc (room s')"
  proof (cases "hit (cells s) L key")
    case (Some c)
    then have "s' = s\<lparr>cells := (cells s)(c := map_option (value'_update (\<lambda>_. val)) (cells s c))\<rparr>"
      using put put_search [OF inv, of key val] by simp
    then show ?thesis using put_hit_inv [OF inv Some, of val] by auto
  next
    case None
    obtain nl s1 where grl: "get_random_level s = (nl, s1)" by (cases "get_random_level s")
    from get_random_level_state [of s] grl obtain g0 where s1: "s1 = s\<lparr>gen' := g0\<rparr>" by auto
    have ins: "insert_node key val
        (trail (cells s) (header' s) L key (unat (skip_list_level' s)) (Suc (unat (max_level' s)))) s
        = Some (Inr s')"
      using put put_search [OF inv, of key val] None by simp
    note spec = insert_node_spec [OF inv None grl, of val]
    have n: "unat nl \<noteq> 255" using spec(1) ins by auto
    have room: "room s \<noteq> 0" using spec(2) ins n by auto
    from spec(3) n room ins obtain g where
      s': "s' = (raised s1 nl)\<lparr>cells := g, next_addr := Suc (next_addr s),
                     room := room s - 1, element_count' := element_count' s + 1\<rparr>"
      and dg: "data g = data ((cells s)(next_addr s \<mapsto>
          \<lparr>key' = key, value' = val, forward' = replicate (Suc (unat nl)) None, node_level' = nl\<rparr>))"
      and sl: "sl_inv g (header' s) (unat (max_level' s))
                  (max (unat (skip_list_level' s)) (unat nl)) (inserted (cells s) L key (next_addr s))"
      and ab: "abs_map g (inserted (cells s) L key (next_addr s)) = (abs_map (cells s) L)(key \<mapsto> val)"
      by auto
    have f: "cells s' = g" "header' s' = header' s" "max_level' s' = max_level' s"
      "skip_list_level' s' = max (skip_list_level' s) nl" "next_addr s' = Suc (next_addr s)"
      "element_count' s' = element_count' s + 1" "room s' = room s - 1"
      by (simp_all add: s' raised_def s1)
    have lv: "unat (skip_list_level' s') = max (unat (skip_list_level' s)) (unat nl)"
      by (simp add: f unat_max8)
    have "unat (skip_list_level' s) < 255" using inv by (simp add: xsf_inv_def)
    then have c2: "unat (skip_list_level' s') < 255" using lv n unat_lt_256 [of nl] by simp
    have c3: "element_count' s' = of_nat (length (inserted (cells s) L key (next_addr s)))"
      using inv by (simp add: f length_inserted xsf_inv_def)
    have "\<forall>a n. ((cells s)(next_addr s \<mapsto>
          \<lparr>key' = key, value' = val, forward' = replicate (Suc (unat nl)) None, node_level' = nl\<rparr>)) a = Some n
        \<longrightarrow> length (forward' n) = Suc (unat (node_level' n))"
      using inv by (auto simp: xsf_inv_def)
    with dg have c4: "\<forall>a n. g a = Some n \<longrightarrow> length (forward' n) = Suc (unat (node_level' n))"
      by (rule data_levels)
    have "dom g = insert (next_addr s) (dom (cells s))" using data_dom [OF dg] by simp
    moreover have "\<forall>a\<in>dom (cells s). a < next_addr s" using inv by (simp add: xsf_inv_def)
    ultimately have c5: "\<forall>a\<in>dom g. a < Suc (next_addr s)" by (auto simp: less_Suc_eq)
    have "xsf_inv s' (inserted (cells s) L key (next_addr s))"
      unfolding xsf_inv_def using sl c2 c3 c4 c5 by (simp add: f unat_max8)
    moreover have "length (inserted (cells s) L key (next_addr s)) + room s' = length L + room s"
      using room by (simp add: f length_inserted)
    ultimately show ?thesis using ab f by auto
  qed
  then show "\<exists>L'. xsf_inv s' L' \<and> abs_map (cells s') L' = (abs_map (cells s) L)(key \<mapsto> val) \<and>
           length L' + room s' = length L + room s"
    and "max_level' s' = max_level' s" and "header' s' = header' s" and "room s \<le> Suc (room s')"
    by blast+
qed

lemma put_total:
  fixes s :: "('k::linorder, 'v) XSFSkipList"
  assumes inv: "xsf_inv s L" and ml: "unat (max_level' s) < 255" and room: "room s \<noteq> 0"
  shows "\<exists>s'. put key val s = Some (Inr s')"
proof (cases "hit (cells s) L key")
  case (Some c)
  then show ?thesis using put_search [OF inv, of key val] by simp
next
  case None
  obtain nl s1 where grl: "get_random_level s = (nl, s1)" by (cases "get_random_level s")
  have "nl \<le> max_level' s" using get_random_level_le [of s] grl by simp
  then have "unat nl \<noteq> 255" using ml by (simp add: word_le_nat_alt)
  then show ?thesis
    using insert_node_spec(3) [OF inv None grl, of val] room put_search [OF inv, of key val] None
    by auto
qed

lemma lower_level_cong:
  "\<forall>j. forward_at g hdr j = forward_at g' hdr j \<Longrightarrow> lower_level g hdr l = lower_level g' hdr l"
proof (induction g hdr l rule: lower_level.induct)
  case (1 h header l)
  show ?case
  proof (cases "0 < l")
    case False
    then show ?thesis by (simp add: lower_level.simps [of _ _ l])
  next
    case True
    have fw: "forward_at h header (unat l) = forward_at g' header (unat l)" using "1.prems" by simp
    show ?thesis
    proof (cases "forward_at g' header (unat l)")
      case (Inl e)
      then show ?thesis using True fw by (simp add: lower_level.simps [of _ _ l])
    next
      case (Inr q)
      show ?thesis
      proof (cases q)
        case None
        have "lower_level h header (l - 1) = lower_level g' header (l - 1)"
          using True fw Inr None "1.prems" by (intro "1.IH") simp_all
        then show ?thesis using True fw Inr None by (simp add: lower_level.simps [of _ _ l])
      next
        case (Some b)
        then show ?thesis using True fw Inr by (simp add: lower_level.simps [of _ _ l])
      qed
    qed
  qed
qed

lemma remove_spec:
  fixes s :: "('k::linorder, 'v) XSFSkipList"
  assumes inv: "xsf_inv s L"
  shows "hit (cells s) L key = None \<longrightarrow> remove key s = Some (Inr s)"
    and "hit (cells s) L key = Some c \<longrightarrow>
      (\<exists>g. remove key s = Some (Inr (s\<lparr>cells := g(c := None),
               skip_list_level' := of_nat (lowered (g(c := None)) (removed (cells s) L key)
                                              (unat (skip_list_level' s))),
               room := room s + 1, element_count' := element_count' s - 1\<rparr>)) \<and>
           data g = data (cells s) \<and>
           sl_inv (g(c := None)) (header' s) (unat (max_level' s)) (unat (skip_list_level' s))
             (removed (cells s) L key) \<and>
           abs_map (g(c := None)) (removed (cells s) L key) = (abs_map (cells s) L)(key := None))"
proof -
  note sl = xsf_inv_sl [OF inv]
  note sp = search_phase [OF inv, of key]
  note ca = candidate [OF sl, of key]
  note mk = match_key_candidate [OF sl, of key]
  show "hit (cells s) L key = None \<longrightarrow> remove key s = Some (Inr s)"
    using sp ca mk by (simp add: remove_def)
  show "hit (cells s) L key = Some c \<longrightarrow>
      (\<exists>g. remove key s = Some (Inr (s\<lparr>cells := g(c := None),
               skip_list_level' := of_nat (lowered (g(c := None)) (removed (cells s) L key)
                                              (unat (skip_list_level' s))),
               room := room s + 1, element_count' := element_count' s - 1\<rparr>)) \<and>
           data g = data (cells s) \<and>
           sl_inv (g(c := None)) (header' s) (unat (max_level' s)) (unat (skip_list_level' s))
             (removed (cells s) L key) \<and>
           abs_map (g(c := None)) (removed (cells s) L key) = (abs_map (cells s) L)(key := None))"
  proof
    assume hit: "hit (cells s) L key = Some c"
    let ?h = "cells s" and ?hdr = "header' s" and ?ml = "unat (max_level' s)"
    let ?lvl = "unat (skip_list_level' s)"
    let ?upd = "trail ?h ?hdr L key ?lvl (Suc ?ml)"
    let ?R = "removed ?h L key"
    have lvl: "?lvl < 255" using inv by (simp add: xsf_inv_def)
    have lm: "?lvl \<le> ?ml" using sl by (simp add: sl_inv_def)
    have w: "of_nat ?lvl = skip_list_level' s" by simp
    have "unlink_loop ?h ?upd c (of_nat ?lvl) (of_nat 0)
       = Some (levels_from (\<lambda>g i. unlink_level g ?upd c i) (Suc ?lvl - 0) 0 ?h)"
      using lvl by (intro unlink_loop_run) simp_all
    then have run: "unlink_loop ?h ?upd c (skip_list_level' s) 0
       = Some (levels_from (\<lambda>g i. unlink_level g ?upd c i) (Suc ?lvl) 0 ?h)"
      by (simp only: w) simp
    have "\<exists>g'. levels_from (\<lambda>g i. unlink_level g ?upd c i) (Suc ?lvl) 0 ?h = Inr g' \<and>
       relinked ?h (?hdr # ?R) (Suc ?lvl) g'"
    proof (rule unlink_levels [OF sl hit lm])
      show "Suc ?lvl \<le> length ?upd" using lm by (simp add: trail_length)
      show "\<forall>j\<le>?lvl. ?upd ! j = Some (pred_at ?h ?hdr L key j)"
        using lm by (auto intro!: trail_nth)
      show "relinked ?h (?hdr # ?R) 0 ?h" by (rule relinked_0)
      show "0 + Suc ?lvl = Suc ?lvl" by simp
    qed
    then obtain g where g: "levels_from (\<lambda>g i. unlink_level g ?upd c i) (Suc ?lvl) 0 ?h = Inr g"
      "relinked ?h (?hdr # ?R) (Suc ?lvl) g" by blast
    have dg: "data g = data ?h" using g(2) by (simp add: relinked_def)
    note rm = sl_inv_remove [OF sl hit g(2)]
    have ch: "c \<noteq> ?hdr" using hit_mem [OF hit] sl by (auto simp: sl_inv_def)
    have "lower_level g ?hdr (skip_list_level' s) = lower_level (g(c := None)) ?hdr (skip_list_level' s)"
      using ch by (intro lower_level_cong) (simp add: forward_at_def)
    also have "\<dots> = lower_level (g(c := None)) ?hdr (of_nat ?lvl)" by (simp only: w)
    also have "\<dots> = Inr (of_nat (lowered (g(c := None)) ?R ?lvl))"
      using rm(1) lm lvl by (intro lower_level_run) simp_all
    finally have low: "lower_level g ?hdr (skip_list_level' s) = Inr (of_nat (lowered (g(c := None)) ?R ?lvl))" .
    have "c \<in> dom ?h" using hit_mem [OF hit] sl by (auto simp: sl_inv_def)
    then have "c \<in> dom g" using data_dom [OF dg] by simp
    then obtain n where n: "g c = Some n" by auto
    have "remove key s = Some (Inr (s\<lparr>cells := g(c := None),
               skip_list_level' := of_nat (lowered (g(c := None)) ?R ?lvl),
               room := room s + 1, element_count' := element_count' s - 1\<rparr>))"
      using sp ca mk hit run g(1) low n by (simp add: remove_def delete_Node_def)
    then show "\<exists>g. remove key s = Some (Inr (s\<lparr>cells := g(c := None),
               skip_list_level' := of_nat (lowered (g(c := None)) ?R ?lvl),
               room := room s + 1, element_count' := element_count' s - 1\<rparr>)) \<and>
           data g = data ?h \<and>
           sl_inv (g(c := None)) ?hdr ?ml ?lvl ?R \<and>
           abs_map (g(c := None)) ?R = (abs_map ?h L)(key := None)"
      using dg rm by blast
  qed
qed

lemma remove_step:
  fixes s :: "('k::linorder, 'v) XSFSkipList"
  assumes inv: "xsf_inv s L"
  shows "\<exists>s' L'. remove key s = Some (Inr s') \<and> xsf_inv s' L' \<and>
     abs_map (cells s') L' = (abs_map (cells s) L)(key := None) \<and>
     length L' + room s' = length L + room s \<and>
     max_level' s' = max_level' s \<and> header' s' = header' s \<and> room s \<le> room s'"
proof (cases "hit (cells s) L key")
  case None
  have "abs_map (cells s) L key = None"
    using abs_map_hit [of "cells s" L key] None xsf_inv_sl [OF inv] by (simp add: sl_inv_def)
  then have "(abs_map (cells s) L)(key := None) = abs_map (cells s) L" by (auto simp: fun_eq_iff)
  then show ?thesis using remove_spec(1) [OF inv, of key] None inv by auto
next
  case (Some c)
  let ?R = "removed (cells s) L key"
  let ?lvl = "unat (skip_list_level' s)"
  from remove_spec(2) [OF inv, of key c] Some obtain g where
    rm: "remove key s = Some (Inr (s\<lparr>cells := g(c := None),
               skip_list_level' := of_nat (lowered (g(c := None)) ?R ?lvl),
               room := room s + 1, element_count' := element_count' s - 1\<rparr>))"
    and dg: "data g = data (cells s)"
    and sl: "sl_inv (g(c := None)) (header' s) (unat (max_level' s)) ?lvl ?R"
    and ab: "abs_map (g(c := None)) ?R = (abs_map (cells s) L)(key := None)" by auto
  let ?s' = "s\<lparr>cells := g(c := None),
               skip_list_level' := of_nat (lowered (g(c := None)) ?R ?lvl),
               room := room s + 1, element_count' := element_count' s - 1\<rparr>"
  have lvl: "?lvl < 255" using inv by (simp add: xsf_inv_def)
  have le: "lowered (g(c := None)) ?R ?lvl \<le> ?lvl" by (rule lowered_le)
  then have u: "unat (of_nat (lowered (g(c := None)) ?R ?lvl) :: 8 word) = lowered (g(c := None)) ?R ?lvl"
    using lvl by (intro unat_of_nat8) simp
  have lens: "\<forall>a\<in>set ?R. len (g(c := None)) a \<le> Suc ?lvl" using sl by (simp add: sl_inv_def)
  have lm: "?lvl \<le> unat (max_level' s)" using sl by (simp add: sl_inv_def)
  have c1: "sl_inv (g(c := None)) (header' s) (unat (max_level' s)) (lowered (g(c := None)) ?R ?lvl) ?R"
  proof (rule sl_inv_lower [OF sl])
    show "\<forall>a\<in>set ?R. len (g(c := None)) a \<le> Suc (lowered (g(c := None)) ?R ?lvl)"
      by (rule lowered_bound [OF lens])
    show "lowered (g(c := None)) ?R ?lvl \<le> unat (max_level' s)" using le lm by simp
  qed
  have "element_count' s = of_nat (length L)" using inv by (simp add: xsf_inv_def)
  then have "element_count' s = of_nat (Suc (length ?R))"
    using length_removed [OF Some] by metis
  then have c3: "element_count' s - 1 = of_nat (length ?R)" by simp
  have "\<forall>a n. g a = Some n \<longrightarrow> length (forward' n) = Suc (unat (node_level' n))"
    using dg inv by (intro data_levels [of g "cells s"]) (simp_all add: xsf_inv_def)
  then have c4: "\<forall>a n. (g(c := None)) a = Some n \<longrightarrow> length (forward' n) = Suc (unat (node_level' n))"
    by (auto split: if_splits)
  have "dom (g(c := None)) \<subseteq> dom (cells s)" using data_dom [OF dg] by auto
  moreover have "\<forall>a\<in>dom (cells s). a < next_addr s" using inv by (simp add: xsf_inv_def)
  ultimately have c5: "\<forall>a\<in>dom (g(c := None)). a < next_addr s" by blast
  have "xsf_inv ?s' ?R"
    unfolding xsf_inv_def using c1 c3 c4 c5 le lvl by (simp add: u)
  moreover have "length ?R + room ?s' = length L + room s"
    using length_removed [OF Some] by simp
  ultimately show ?thesis using rm ab by (intro exI [of _ ?s'] exI [of _ ?R]) simp
qed

lemma fold_effect_latest: "fold effect ops Map.empty key = latest key (rev ops)"
proof (induction ops rule: rev_induct)
  case Nil
  then show ?case by simp
next
  case (snoc x xs)
  then show ?case by (cases x) auto
qed

lemma XSFSkipList_inv:
  assumes "XSFSkipList mt19937 free k v max_level seed = Inr s"
  shows "xsf_inv s []" and "abs_map (cells s) [] = Map.empty"
    and "max_level' s = max_level" and "room s = free - 1" and "free \<noteq> 0"
proof -
  let ?n = "\<lparr>key' = k, value' = v, forward' = replicate (Suc (unat max_level)) None, node_level' = max_level\<rparr>"
  have free: "free \<noteq> 0" using assms by (auto simp: XSFSkipList_def new_Node_def split: if_splits)
  then have s: "s = \<lparr>cells = Map.empty(0 \<mapsto> ?n), next_addr = Suc 0, room = free - 1,
               max_level' = max_level, skip_list_level' = 0, header' = 0,
               element_count' = 0, gen' = mt19937 seed\<rparr>"
    using assms by (simp add: XSFSkipList_def new_Node_def)
  have len: "len (cells s) 0 = Suc (unat max_level)" by (simp add: s len_def)
  have "\<And>i. linked (cells s) i [0]"
    by (simp add: s len_def forward_at_def del: replicate_Suc)
  then have "sl_inv (cells s) 0 (unat max_level) 0 []"
    using len by (simp add: sl_inv_def) (simp add: s)
  then show "xsf_inv s []" by (simp add: xsf_inv_def) (simp add: s)
  show "abs_map (cells s) [] = Map.empty" by (simp add: abs_map_def)
  show "max_level' s = max_level" "room s = free - 1" by (simp_all add: s)
  show "free \<noteq> 0" by (rule free)
qed

lemma run_inv:
  fixes s :: "('k::linorder, 'v) XSFSkipList"
  assumes "xsf_inv s L" "run ops s = Some (Inr s')"
  shows "\<exists>L'. xsf_inv s' L' \<and> abs_map (cells s') L' = fold effect ops (abs_map (cells s) L) \<and>
           length L' + room s' = length L + room s"
  using assms
proof (induction ops arbitrary: s L)
  case Nil
  then show ?case by auto
next
  case (Cons x ops)
  show ?case
  proof (cases x)
    case (Put k v)
    then obtain s1 where s1: "put k v s = Some (Inr s1)" "run ops s1 = Some (Inr s')"
      using Cons.prems(2) by (auto split: option.splits sum.splits)
    from put_step(1) [OF Cons.prems(1) s1(1)] obtain L1 where
      "xsf_inv s1 L1" "abs_map (cells s1) L1 = (abs_map (cells s) L)(k \<mapsto> v)"
      "length L1 + room s1 = length L + room s" by blast
    then show ?thesis using Cons.IH [OF _ s1(2)] Put by fastforce
  next
    case (Get k)
    then have "run ops s = Some (Inr s')"
      using Cons.prems(2) by (auto split: option.splits sum.splits)
    then show ?thesis using Cons.IH [OF Cons.prems(1)] Get by fastforce
  next
    case (Remove k)
    then obtain s1 where s1: "remove k s = Some (Inr s1)" "run ops s1 = Some (Inr s')"
      using Cons.prems(2) by (auto split: option.splits sum.splits)
    from remove_step [OF Cons.prems(1), of k] s1(1) obtain L1 where
      "xsf_inv s1 L1" "abs_map (cells s1) L1 = (abs_map (cells s) L)(k := None)"
      "length L1 + room s1 = length L + room s" by auto
    then show ?thesis using Cons.IH [OF _ s1(2)] Remove by fastforce
  qed
qed

lemma run_total:
  fixes s :: "('k::linorder, 'v) XSFSkipList"
  assumes "xsf_inv s L" "unat (max_level' s) < 255" "length ops \<le> room s"
  shows "\<exists>s'. run ops s = Some (Inr s')"
  using assms
proof (induction ops arbitrary: s L)
  case Nil
  then show ?case by simp
next
  case (Cons x ops)
  show ?case
  proof (cases x)
    case (Put k v)
    have "room s \<noteq> 0" using Cons.prems(3) by auto
    from put_total [OF Cons.prems(1,2) this, of k v] obtain s1 where s1: "put k v s = Some (Inr s1)"
      by blast
    note st = put_step [OF Cons.prems(1) s1]
    from st(1) obtain L1 where "xsf_inv s1 L1" by blast
    moreover have "unat (max_level' s1) < 255" using st(2) Cons.prems(2) by simp
    moreover have "length ops \<le> room s1" using st(4) Cons.prems(3) by simp
    ultimately have "\<exists>s'. run ops s1 = Some (Inr s')" by (rule Cons.IH)
    then show ?thesis using Put s1 by simp
  next
    case (Get k)
    have "\<exists>s'. run ops s = Some (Inr s')"
      using Cons.prems by (intro Cons.IH [of s L]) simp_all
    then show ?thesis using Get get_spec [OF Cons.prems(1), of k] by simp
  next
    case (Remove k)
    from remove_step [OF Cons.prems(1), of k] obtain s1 L1 where
      s1: "remove k s = Some (Inr s1)" "xsf_inv s1 L1" "max_level' s1 = max_level' s" "room s \<le> room s1"
      by blast
    have "\<exists>s'. run ops s1 = Some (Inr s')"
      using s1 Cons.prems by (intro Cons.IH [of s1 L1]) simp_all
    then show ?thesis using Remove s1 by simp
  qed
qed

text \<open>
  Claim C1. Take any skip list the constructor returns and any finite sequence \<open>ops\<close> of
  put, get and remove. Whenever the sequence has run to its end, \<open>get key\<close> returns the
  value of the most recent \<open>put key v\<close> that no \<open>remove key\<close> follows, and no value
  when there is none. The sequence does run to its end when \<open>max_level\<close> is below 255 and
  the store has room for a node per operation besides the header. (With \<open>max_level = 255\<close>
  a drawn level of 255 makes the \<open>uint8_t\<close> counter of \<open>put\<close> wrap, and \<open>put\<close>
  never returns.)
\<close>

theorem get_returns_latest_put:
  fixes s0 :: "('k::linorder, 'v) XSFSkipList"
  assumes "XSFSkipList mt19937 free k0 v0 max_level seed = Inr s0"
  shows "(max_level \<noteq> 255 \<and> length ops < free \<longrightarrow> (\<exists>s. run ops s0 = Some (Inr s))) \<and>
         (\<forall>s. run ops s0 = Some (Inr s) \<longrightarrow> get key s = Some (Inr (latest key (rev ops))))"
proof (intro conjI impI allI)
  note init = XSFSkipList_inv [OF assms]
  {
    assume a: "max_level \<noteq> 255 \<and> length ops < free"
    have "unat max_level \<noteq> 255" using a by (simp add: word_unat_eq_iff)
    then have "unat (max_level' s0) < 255" using init(3) unat_lt_256 [of max_level] by simp
    moreover have "length ops \<le> room s0" using a init(4) by auto
    ultimately show "\<exists>s. run ops s0 = Some (Inr s)" using init(1) by (intro run_total)
  }
  {
    fix s assume "run ops s0 = Some (Inr s)"
    from run_inv [OF init(1) this] obtain L where
      L: "xsf_inv s L" "abs_map (cells s) L = fold effect ops (abs_map (cells s0) [])" by blast
    show "get key s = Some (Inr (latest key (rev ops)))"
      using get_spec [OF L(1), of key] L(2) init(2) fold_effect_latest [of ops key] by simp
  }
qed

theorem get_returns_latest_put_witness:
  "XSFSkipList two_heads_in_three 8 (0 :: int) (0 :: int) 4 42 \<noteq> Inl BadAlloc \<and>
   (\<exists>s. run [Put 3 30, Put 6 60, Put 3 31, Remove 6, Get 3]
          (projr (XSFSkipList two_heads_in_three 8 (0 :: int) (0 :: int) 4 42)) = Some (Inr s) \<and>
        get 3 s = Some (Inr (Some (31 :: int))) \<and> get 6 s = Some (Inr None))"
proof -
  obtain s0 :: "(int, int) XSFSkipList" where
    s0: "XSFSkipList two_heads_in_three 8 0 0 4 42 = Inr s0"
    by (simp add: XSFSkipList_def new_Node_def)
  let ?ops = "[Put 3 30, Put 6 60, Put 3 31, Remove 6, Get 3] :: (int, int) operation list"
  from get_returns_latest_put [OF s0, of ?ops 3] obtain s where
    s: "run ?ops s0 = Some (Inr s)" and g3: "get 3 s = Some (Inr (latest 3 (rev ?ops)))" by auto
  from get_returns_latest_put [OF s0, of ?ops 6] s have g6: "get 6 s = Some (Inr (latest 6 (rev ?ops)))"
    by auto
  show ?thesis using s0 s g3 g6 by simp
qed

lemma level0_from_linked:
  assumes "linked h 0 ys" "\<forall>a\<in>set ys. 0 < len h a"
  shows "level0_from h (case ys of [] \<Rightarrow> None | a # as \<Rightarrow> Some a) keys
     = Some (Inr (keys @ map (nkey h) ys))"
  using assms
proof (induction ys arbitrary: keys)
  case Nil
  then show ?case by (subst level0_from.simps) simp
next
  case (Cons a ys)
  then have la: "0 < len h a" by simp
  then obtain n where n: "h a = Some n" by (auto simp: len_def split: option.splits)
  have "find (\<lambda>b. 0 < len h b) ys = (case ys of [] \<Rightarrow> None | b # bs \<Rightarrow> Some b)"
    using Cons.prems(2) by (cases ys) auto
  then have fw: "forward_at h a 0 = Inr (case ys of [] \<Rightarrow> None | b # bs \<Rightarrow> Some b)"
    using Cons.prems(1) la by simp
  have "level0_from h (Some a) keys
      = level0_from h (case ys of [] \<Rightarrow> None | b # bs \<Rightarrow> Some b) (keys @ [key' n])"
    by (subst level0_from.simps) (simp add: n fw)
  also have "\<dots> = Some (Inr ((keys @ [key' n]) @ map (nkey h) ys))"
    using Cons.prems by (intro Cons.IH) simp_all
  finally show ?case using n by (simp add: nkey_def)
qed

lemma level0_keys_inv:
  assumes "xsf_inv s L"
  shows "level0_keys s = Some (Inr (map (nkey (cells s)) L))"
proof -
  note sl = xsf_inv_sl [OF assms]
  have lens: "\<forall>a\<in>set L. 0 < len (cells s) a" using sl by (simp add: sl_inv_def)
  have "linked (cells s) 0 (header' s # L)" using sl by (simp add: sl_inv_def)
  then have lk: "linked (cells s) 0 L" by simp
  have "forward_at (cells s) (header' s) 0 = Inr (find (\<lambda>b. 0 < len (cells s) b) L)"
    using sl by (intro hdr_forward) simp_all
  moreover have "find (\<lambda>b. 0 < len (cells s) b) L = (case L of [] \<Rightarrow> None | b # bs \<Rightarrow> Some b)"
    using lens by (cases L) auto
  ultimately show ?thesis
    using level0_from_linked [OF lk lens, of "[]"] by (simp add: level0_keys_def)
qed

lemma sorted_wrt_less_distinct: "sorted_wrt (<) (ks :: 'k::linorder list) \<Longrightarrow> distinct ks"
  by (induction ks) auto

text \<open>
  Claim C2. In every state a sequence of put, get and remove reaches from a constructed
  list, the level-0 chain from \<open>header_->forward_[0]\<close> is strictly increasing in key, so it
  holds no key twice, and \<open>size()\<close>, which returns \<open>element_count_\<close>, is its length: as a
  \<open>size_t\<close> always, and as a number whenever the store holds at most \<open>2 ^ 64\<close> nodes.
\<close>

theorem level0_chain_sorted_and_counted:
  fixes s0 :: "('k::linorder, 'v) XSFSkipList"
  assumes "XSFSkipList mt19937 free k0 v0 max_level seed = Inr s0"
    and "run ops s0 = Some (Inr s)"
  shows "\<exists>ks. level0_keys s = Some (Inr ks) \<and> sorted_wrt (<) ks \<and> distinct ks \<and>
           size_of s = of_nat (length ks) \<and> element_count' s = size_of s \<and>
           (free \<le> 2 ^ 64 \<longrightarrow> unat (size_of s) = length ks)"
proof -
  note init = XSFSkipList_inv [OF assms(1)]
  from run_inv [OF init(1) assms(2)] obtain L where
    L: "xsf_inv s L" "length L + room s = length ([] :: addr list) + room s0" by blast
  let ?ks = "map (nkey (cells s)) L"
  have 1: "level0_keys s = Some (Inr ?ks)" using L(1) by (rule level0_keys_inv)
  have 2: "sorted_wrt (<) ?ks" using xsf_inv_sl [OF L(1)] by (simp add: sl_inv_def)
  then have 3: "distinct ?ks" by (rule sorted_wrt_less_distinct)
  have 4: "size_of s = of_nat (length ?ks)" using L(1) by (simp add: size_of_def xsf_inv_def)
  have 5: "free \<le> 2 ^ 64 \<longrightarrow> unat (size_of s) = length ?ks"
  proof
    assume "free \<le> 2 ^ 64"
    moreover have "length L \<le> free - 1" using L(2) init(4) by simp
    ultimately have "length L < 2 ^ 64" using init(5) by simp
    then have "unat (of_nat (length L) :: 64 word) = length L"
      by (simp add: unat_of_nat)
    then show "unat (size_of s) = length ?ks" using 4 by simp
  qed
  show ?thesis using 1 2 3 4 5 by (intro exI [of _ ?ks]) (simp add: size_of_def)
qed

theorem level0_chain_sorted_and_counted_witness:
  "\<exists>s ks. XSFSkipList two_heads_in_three 8 (0 :: int) (0 :: int) 4 42 \<noteq> Inl BadAlloc \<and>
     run [Put 3 30, Put 1 10, Put 6 60, Remove 3]
       (projr (XSFSkipList two_heads_in_three 8 (0 :: int) (0 :: int) 4 42)) = Some (Inr s) \<and>
     level0_keys s = Some (Inr ks) \<and> sorted_wrt (<) ks \<and> distinct ks \<and>
     size_of s = of_nat (length ks) \<and> unat (size_of s) = length ks"
proof -
  obtain s0 :: "(int, int) XSFSkipList" where
    s0: "XSFSkipList two_heads_in_three 8 0 0 4 42 = Inr s0"
    by (simp add: XSFSkipList_def new_Node_def)
  note init = XSFSkipList_inv [OF s0]
  let ?ops = "[Put 3 30, Put 1 10, Put 6 60, Remove 3] :: (int, int) operation list"
  have "unat (max_level' s0) < 255" "length ?ops \<le> room s0" using init(3,4) by simp_all
  from run_total [OF init(1) this] obtain s where s: "run ?ops s0 = Some (Inr s)" by blast
  from level0_chain_sorted_and_counted [OF s0 s] show ?thesis using s0 s by auto
qed

lemma put_faults:
  fixes s :: "('k::linorder, 'v) XSFSkipList"
  assumes inv: "xsf_inv s L" and put: "put key val s = Some (Inl (e, s'))"
  shows "e = BadAlloc \<and> hit (cells s) L key = None \<and> room s = 0 \<and>
         s' = raised (snd (get_random_level s)) (fst (get_random_level s)) \<and>
         unat (fst (get_random_level s)) \<noteq> 255"
proof (cases "hit (cells s) L key")
  case (Some c)
  then show ?thesis using put put_search [OF inv, of key val] by simp
next
  case None
  obtain nl s1 where grl: "get_random_level s = (nl, s1)" by (cases "get_random_level s")
  have ins: "insert_node key val
      (trail (cells s) (header' s) L key (unat (skip_list_level' s)) (Suc (unat (max_level' s)))) s
      = Some (Inl (e, s'))"
    using put put_search [OF inv, of key val] None by simp
  note spec = insert_node_spec [OF inv None grl, of val]
  have n: "unat nl \<noteq> 255" using spec(1) ins by auto
  have room: "room s = 0" using spec(3) ins n by auto
  then show ?thesis using spec(2) n ins None grl by auto
qed

lemma node_levels_bounded:
  fixes s :: "('k::linorder, 'v) XSFSkipList"
  assumes inv: "xsf_inv s L" and n: "cells s a = Some n"
  shows "node_level' n \<le> max_level' s" and "length (forward' n) = unat (node_level' n) + 1"
proof -
  note sl = xsf_inv_sl [OF inv]
  have l: "length (forward' n) = Suc (unat (node_level' n))" using inv n by (simp add: xsf_inv_def)
  then show "length (forward' n) = unat (node_level' n) + 1" by simp
  have "a \<in> set (header' s # L)" using sl n by (auto simp: sl_inv_def)
  moreover have "len (cells s) a = length (forward' n)" using n by (simp add: len_def)
  ultimately have "length (forward' n) \<le> Suc (unat (max_level' s))"
    using sl by (auto simp: sl_inv_def)
  then show "node_level' n \<le> max_level' s" using l by (simp add: word_le_nat_alt)
qed

text \<open>
  Claim C9. In every state a sequence of operations reaches from a constructed list, the
  current top level is at most \<open>max_level_\<close>, every node's level is at most \<open>max_level_\<close>
  and its link array has one slot per level, and the level generator returns at most
  \<open>max_level_\<close>. Hence no array access of \<open>put\<close>, \<open>get\<close> or \<open>remove\<close> leaves its bounds
  (or meets a null or stale pointer): \<open>get\<close> and \<open>remove\<close> return, and the only fault
  \<open>put\<close> can end in is \<open>std::bad_alloc\<close>.
\<close>

theorem accesses_within_bounds:
  fixes s0 :: "('k::linorder, 'v) XSFSkipList"
  assumes "XSFSkipList mt19937 free k0 v0 max_level seed = Inr s0"
    and "run ops s0 = Some (Inr s)"
  shows "skip_list_level' s \<le> max_level' s \<and>
         (\<forall>a n. cells s a = Some n \<longrightarrow>
            node_level' n \<le> max_level' s \<and> length (forward' n) = unat (node_level' n) + 1) \<and>
         fst (get_random_level s) \<le> max_level' s \<and>
         (\<forall>key val e s'. put key val s = Some (Inl (e, s')) \<longrightarrow> e = BadAlloc) \<and>
         (\<forall>key. \<exists>v. get key s = Some (Inr v)) \<and>
         (\<forall>key. \<exists>s'. remove key s = Some (Inr s'))"
proof -
  note init = XSFSkipList_inv [OF assms(1)]
  from run_inv [OF init(1) assms(2)] obtain L where L: "xsf_inv s L" by blast
  have "unat (skip_list_level' s) \<le> unat (max_level' s)"
    using xsf_inv_sl [OF L] by (simp add: sl_inv_def)
  then have 1: "skip_list_level' s \<le> max_level' s" by (simp add: word_le_nat_alt)
  have 2: "\<forall>a n. cells s a = Some n \<longrightarrow>
            node_level' n \<le> max_level' s \<and> length (forward' n) = unat (node_level' n) + 1"
    using node_levels_bounded [OF L] by blast
  have 3: "fst (get_random_level s) \<le> max_level' s" by (rule get_random_level_le)
  have 4: "\<forall>key val e s'. put key val s = Some (Inl (e, s')) \<longrightarrow> e = BadAlloc"
    using put_faults [OF L] by blast
  have 5: "\<forall>key. \<exists>v. get key s = Some (Inr v)" using get_spec [OF L] by blast
  have 6: "\<forall>key. \<exists>s'. remove key s = Some (Inr s')" using remove_step [OF L] by blast
  show ?thesis using 1 2 3 4 5 6 by blast
qed

theorem accesses_within_bounds_witness:
  "\<exists>s. XSFSkipList two_heads_in_three 8 (0 :: int) (0 :: int) 4 42 \<noteq> Inl BadAlloc \<and>
     run [Put 3 30, Put 1 10, Put 6 60, Remove 3]
       (projr (XSFSkipList two_heads_in_three 8 (0 :: int) (0 :: int) 4 42)) = Some (Inr s) \<and>
     skip_list_level' s \<le> max_level' s \<and> fst (get_random_level s) \<le> max_level' s \<and>
     (\<exists>v. get 6 s = Some (Inr v)) \<and> (\<exists>s'. remove 6 s = Some (Inr s'))"
proof -
  obtain s0 :: "(int, int) XSFSkipList" where
    s0: "XSFSkipList two_heads_in_three 8 0 0 4 42 = Inr s0"
    by (simp add: XSFSkipList_def new_Node_def)
  note init = XSFSkipList_inv [OF s0]
  let ?ops = "[Put 3 30, Put 1 10, Put 6 60, Remove 3] :: (int, int) operation list"
  have "unat (max_level' s0) < 255" "length ?ops \<le> room s0" using init(3,4) by simp_all
  from run_total [OF init(1) this] obtain s where s: "run ?ops s0 = Some (Inr s)" by blast
  from accesses_within_bounds [OF s0 s] show ?thesis using s0 s by auto
qed

lemma raised_inv:
  fixes s :: "('k::linorder, 'v) XSFSkipList"
  assumes inv: "xsf_inv s L" and nl: "nl \<le> max_level' s" "unat nl \<noteq> 255"
  shows "xsf_inv (raised (s\<lparr>gen' := g\<rparr>) nl) L"
proof -
  note sl = xsf_inv_sl [OF inv]
  let ?l = "max (unat (skip_list_level' s)) (unat nl)"
  have lvl: "unat (skip_list_level' s) < 255" and lm: "unat (skip_list_level' s) \<le> unat (max_level' s)"
    using inv sl by (simp_all add: xsf_inv_def sl_inv_def)
  have nm: "unat nl \<le> unat (max_level' s)" using nl(1) by (simp add: word_le_nat_alt)
  have "sl_inv (cells s) (header' s) (unat (max_level' s)) ?l L"
    using lm nm by (intro sl_inv_raise [OF sl]) simp_all
  moreover have "?l < 255" using lvl nl(2) unat_lt_256 [of nl] by simp
  ultimately show ?thesis using inv by (simp add: xsf_inv_def raised_def unat_max8)
qed

lemma thrown_SomeD: "thrown r = Some x \<Longrightarrow> r = Some (Inl x)"
  by (auto simp: thrown_def split: option.splits sum.splits)

lemma returned_SomeD: "returned r = Some x \<Longrightarrow> r = Some (Inr x)"
  by (auto simp: returned_def split: option.splits sum.splits)

text \<open>
  Claim C3, as the code has it. When the allocation of the new node fails in a \<open>put\<close> of
  an absent key, \<open>put\<close> leaves through \<open>std::bad_alloc\<close> with no node allocated, no
  forward pointer and no element count changed, and every key still mapped as before.
  The current top level, however, has already been raised to the new node's level when
  that is higher, and the generator has advanced: both come before the allocation.
\<close>

theorem failed_allocation_leaves_links:
  fixes s0 :: "('k::linorder, 'v) XSFSkipList"
  assumes "XSFSkipList mt19937 free k0 v0 max_level seed = Inr s0"
    and "run ops s0 = Some (Inr s)"
    and "put key val s = Some (Inl (BadAlloc, s'))"
  shows "get key s = Some (Inr None) \<and>
         cells s' = cells s \<and> next_addr s' = next_addr s \<and> room s' = room s \<and>
         element_count' s' = element_count' s \<and>
         header' s' = header' s \<and> max_level' s' = max_level' s \<and>
         skip_list_level' s' = max (skip_list_level' s) (fst (get_random_level s)) \<and>
         gen' s' = gen' (snd (get_random_level s)) \<and>
         level0_keys s' = level0_keys s \<and> (\<forall>k. get k s' = get k s)"
proof -
  note init = XSFSkipList_inv [OF assms(1)]
  from run_inv [OF init(1) assms(2)] obtain L where L: "xsf_inv s L" by blast
  from put_faults [OF L assms(3)] have miss: "hit (cells s) L key = None"
    and s': "s' = raised (snd (get_random_level s)) (fst (get_random_level s))"
    and n: "unat (fst (get_random_level s)) \<noteq> 255" by simp_all
  from get_random_level_state [of s] obtain g where
    g: "get_random_level s = (fst (get_random_level s), s\<lparr>gen' := g\<rparr>)" by blast
  then have s1: "snd (get_random_level s) = s\<lparr>gen' := g\<rparr>" by (metis snd_conv)
  have f: "cells s' = cells s" "next_addr s' = next_addr s" "room s' = room s"
    "element_count' s' = element_count' s" "header' s' = header' s" "max_level' s' = max_level' s"
    "skip_list_level' s' = max (skip_list_level' s) (fst (get_random_level s))"
    "gen' s' = gen' (snd (get_random_level s))"
    unfolding s' s1 by (simp_all add: raised_def)
  have inv': "xsf_inv s' L"
    unfolding s' s1 using L get_random_level_le [of s] n by (intro raised_inv) simp_all
  have srt: "sorted_wrt (<) (map (nkey (cells s)) L)" using xsf_inv_sl [OF L] by (simp add: sl_inv_def)
  have 1: "get key s = Some (Inr None)"
    using get_spec [OF L, of key] abs_map_hit [OF srt, of key] miss by simp
  have 2: "level0_keys s' = level0_keys s"
    using level0_keys_inv [OF L] level0_keys_inv [OF inv'] f(1) by simp
  have 3: "\<forall>k. get k s' = get k s" using get_spec [OF L] get_spec [OF inv'] f(1) by simp
  show ?thesis using f 1 2 3 by simp
qed

theorem failed_allocation_leaves_links_witness:
  "XSFSkipList one_head 1 (0 :: int) (0 :: int) 4 42 \<noteq> Inl BadAlloc \<and>
   run [] (projr (XSFSkipList one_head 1 (0 :: int) (0 :: int) 4 42))
     = Some (Inr (projr (XSFSkipList one_head 1 (0 :: int) (0 :: int) 4 42))) \<and>
   map_option fst (thrown (put 5 50 (projr (XSFSkipList one_head 1 (0 :: int) (0 :: int) 4 42))))
     = Some BadAlloc \<and>
   map_option (\<lambda>x. cells (snd x) 0) (thrown (put 5 50 (projr (XSFSkipList one_head 1 (0 :: int) (0 :: int) 4 42))))
     = Some (cells (projr (XSFSkipList one_head 1 (0 :: int) (0 :: int) 4 42)) 0)"
proof -
  let ?X = "XSFSkipList one_head 1 (0 :: int) (0 :: int) 4 42"
  have ne: "?X \<noteq> Inl BadAlloc" by (simp add: XSFSkipList_def new_Node_def)
  have s0: "?X = Inr (projr ?X)" by (simp add: XSFSkipList_def new_Node_def)
  have r: "run [] (projr ?X) = Some (Inr (projr ?X))" by simp
  have e: "map_option fst (thrown (put 5 50 (projr ?X))) = Some BadAlloc" by code_simp
  then obtain x where "thrown (put 5 50 (projr ?X)) = Some x" "fst x = BadAlloc" by blast
  then obtain s' where p: "put 5 50 (projr ?X) = Some (Inl (BadAlloc, s'))"
    by (cases x) (auto dest: thrown_SomeD)
  from failed_allocation_leaves_links [OF s0 r p] have "cells s' = cells (projr ?X)" by simp
  then show ?thesis using ne r e p by (simp add: thrown_def)
qed

text \<open>
  Claim C3 as stated fails: on an empty list with \<open>max_level = 4\<close>, in a store with no
  room left, a \<open>put\<close> whose drawn level is 1 throws \<open>std::bad_alloc\<close> and leaves the
  current top level at 1, where it was 0 before the call.
\<close>

theorem failed_allocation_counterexample:
  "skip_list_level' (projr (XSFSkipList one_head 1 (0 :: int) (0 :: int) 4 42)) = 0 \<and>
   map_option fst (thrown (put 5 50 (projr (XSFSkipList one_head 1 (0 :: int) (0 :: int) 4 42))))
     = Some BadAlloc \<and>
   map_option (\<lambda>x. skip_list_level' (snd x))
     (thrown (put 5 50 (projr (XSFSkipList one_head 1 (0 :: int) (0 :: int) 4 42))))
     = Some 1"
proof (intro conjI)
  show "skip_list_level' (projr (XSFSkipList one_head 1 (0 :: int) (0 :: int) 4 42)) = 0"
    by code_simp
  show "map_option fst (thrown (put 5 50 (projr (XSFSkipList one_head 1 (0 :: int) (0 :: int) 4 42))))
     = Some BadAlloc"
    by code_simp
  show "map_option (\<lambda>x. skip_list_level' (snd x))
     (thrown (put 5 50 (projr (XSFSkipList one_head 1 (0 :: int) (0 :: int) 4 42))))
     = Some 1"
    by code_simp
qed

lemma next_levels_cong:
  fixes s :: "('k, 'v) XSFSkipList" and t :: "('a, 'b) XSFSkipList"
  shows "gen' s = gen' t \<Longrightarrow> max_level' s = max_level' t \<Longrightarrow> next_levels n s = next_levels n t"
proof (induction n arbitrary: s t)
  case 0
  show ?case by simp
next
  case (Suc n)
  obtain k g where kg: "get_random_level_loop (max_level' t) (gen' t) 0 = (k, g)"
    by (cases "get_random_level_loop (max_level' t) (gen' t) 0")
  have s: "get_random_level s = (k, s\<lparr>gen' := g\<rparr>)"
    using kg Suc.prems by (simp add: get_random_level_def)
  have t: "get_random_level t = (k, t\<lparr>gen' := g\<rparr>)"
    using kg by (simp add: get_random_level_def)
  have "next_levels n (s\<lparr>gen' := g\<rparr>) = next_levels n (t\<lparr>gen' := g\<rparr>)"
    using Suc.prems by (intro Suc.IH) simp_all
  then show ?case by (simp add: s t)
qed

text \<open>
  Claim C6. The constructor takes the seed, and the seed (with the level ceiling) decides
  every level drawn afterwards: two lists constructed with the same seed and the same
  \<open>max_level\<close>, whatever their key and value types, placeholders and stores, return the same
  levels over any number of successive calls of \<open>get_random_level\<close>.
\<close>

theorem same_seed_same_levels:
  fixes s :: "('k, 'v) XSFSkipList" and t :: "('a, 'b) XSFSkipList"
  assumes "XSFSkipList mt19937 free k v max_level seed = Inr s"
    and "XSFSkipList mt19937 free' k' v' max_level seed = Inr t"
  shows "next_levels n s = next_levels n t"
proof -
  have "gen' s = mt19937 seed" "max_level' s = max_level"
    using assms(1) by (auto simp: XSFSkipList_def new_Node_def split: if_splits)
  moreover have "gen' t = mt19937 seed" "max_level' t = max_level"
    using assms(2) by (auto simp: XSFSkipList_def new_Node_def split: if_splits)
  ultimately show ?thesis by (intro next_levels_cong) simp_all
qed

theorem same_seed_same_levels_witness:
  "XSFSkipList two_heads_in_three 3 (0 :: int) (0 :: int) 4 42 \<noteq> Inl BadAlloc \<and>
   XSFSkipList two_heads_in_three 8 (7 :: nat) True 4 42 \<noteq> Inl BadAlloc \<and>
   next_levels 5 (projr (XSFSkipList two_heads_in_three 3 (0 :: int) (0 :: int) 4 42))
     = next_levels 5 (projr (XSFSkipList two_heads_in_three 8 (7 :: nat) True 4 42))"
proof -
  obtain s :: "(int, int) XSFSkipList" where
    s: "XSFSkipList two_heads_in_three 3 0 0 4 42 = Inr s"
    by (simp add: XSFSkipList_def new_Node_def)
  obtain t :: "(nat, bool) XSFSkipList" where
    t: "XSFSkipList two_heads_in_three 8 7 True 4 42 = Inr t"
    by (simp add: XSFSkipList_def new_Node_def)
  from same_seed_same_levels [OF s t, of 5] show ?thesis using s t by simp
qed

lemma len_reheap: "len (reheap k v hdr h) a = len h a"
  by (simp add: len_def reheap_def split: option.splits)

lemma forward_at_reheap: "forward_at (reheap k v hdr h) a i = forward_at h a i"
  by (simp add: forward_at_def reheap_def split: option.splits)

lemma nkey_reheap: "a \<in> set L \<Longrightarrow> hdr \<notin> set L \<Longrightarrow> nkey (reheap k v hdr h) a = nkey h a"
  by (auto simp: nkey_def reheap_def)

lemma nval_reheap: "a \<in> set L \<Longrightarrow> hdr \<notin> set L \<Longrightarrow> nval (reheap k v hdr h) a = nval h a"
  by (auto simp: nval_def reheap_def)

lemma dom_reheap: "dom (reheap k v hdr h) = dom h"
  by (auto simp: reheap_def dom_def)

lemma linked_reheap: "linked (reheap k v hdr h) i xs = linked h i xs"
  by (rule linked_frame) (simp add: len_reheap forward_at_reheap)

lemma map_nkey_reheap: "hdr \<notin> set L \<Longrightarrow> map (nkey (reheap k v hdr h)) L = map (nkey h) L"
  by (rule map_cong [OF refl]) (auto simp: nkey_reheap)

lemma takeWhile_reheap:
  "hdr \<notin> set L \<Longrightarrow>
     takeWhile (\<lambda>b. nkey (reheap k v hdr h) b < key) L = takeWhile (\<lambda>b. nkey h b < key) L"
  by (rule takeWhile_cong [OF refl]) (auto simp: nkey_reheap)

lemma dropWhile_reheap:
  "hdr \<notin> set L \<Longrightarrow>
     dropWhile (\<lambda>b. nkey (reheap k v hdr h) b < key) L = dropWhile (\<lambda>b. nkey h b < key) L"
  by (rule dropWhile_cong [OF refl]) (auto simp: nkey_reheap)

lemma sl_inv_reheap:
  assumes "sl_inv h hdr ml lvl L"
  shows "sl_inv (reheap k v hdr h) hdr ml lvl L"
proof -
  have "hdr \<notin> set L" using assms by (simp add: sl_inv_def)
  then have m: "map (nkey (reheap k v hdr h)) L = map (nkey h) L" by (rule map_nkey_reheap)
  show ?thesis
    using assms unfolding sl_inv_def len_reheap dom_reheap linked_reheap m .
qed

lemma abs_map_reheap: "hdr \<notin> set L \<Longrightarrow> abs_map (reheap k v hdr h) L = abs_map h L"
proof -
  assume "hdr \<notin> set L"
  then have "map (\<lambda>a. (nkey (reheap k v hdr h) a, nval (reheap k v hdr h) a)) L
      = map (\<lambda>a. (nkey h a, nval h a)) L"
    by (intro map_cong [OF refl]) (auto simp: nkey_reheap nval_reheap)
  then show ?thesis unfolding abs_map_def by (rule arg_cong)
qed

lemma hit_reheap: "hdr \<notin> set L \<Longrightarrow> hit (reheap k v hdr h) L key = hit h L key"
proof -
  assume a: "hdr \<notin> set L"
  show ?thesis
  proof (cases "dropWhile (\<lambda>b. nkey h b < key) L")
    case Nil
    show ?thesis unfolding hit_def dropWhile_reheap [OF a] Nil by simp
  next
    case (Cons b bs)
    then have "b \<in> set L" by (metis list.set_intros(1) set_dropWhileD)
    then have "nkey (reheap k v hdr h) b = nkey h b" using a by (rule nkey_reheap)
    then show ?thesis unfolding hit_def dropWhile_reheap [OF a] Cons by simp
  qed
qed

lemma pred_at_reheap:
  "hdr \<notin> set L \<Longrightarrow> pred_at (reheap k v hdr h) hdr L key i = pred_at h hdr L key i"
  by (simp add: pred_at_def takeWhile_reheap len_reheap)

lemma trail_reheap:
  "hdr \<notin> set L \<Longrightarrow> trail (reheap k v hdr h) hdr L key t n = trail h hdr L key t n"
  by (simp add: trail_def pred_at_reheap)

lemma inserted_reheap:
  "hdr \<notin> set L \<Longrightarrow> inserted (reheap k v hdr h) L key new = inserted h L key new"
  by (simp add: inserted_def takeWhile_reheap dropWhile_reheap)

lemma removed_reheap:
  "hdr \<notin> set L \<Longrightarrow> removed (reheap k v hdr h) L key = removed h L key"
  by (simp add: removed_def takeWhile_reheap dropWhile_reheap)

lemma lowered_reheap: "lowered (reheap k v hdr h) L l = lowered h L l"
  by (induction l) (simp_all add: len_reheap)

lemma data_reheap_at:
  "data (reheap k v hdr h) a =
     (if a = hdr then map_option (\<lambda>d. (k, v, snd (snd d))) (data h hdr) else data h a)"
  by (cases "h hdr") (simp_all add: data_def reheap_def)

lemma data_reheap: "data g = data h \<Longrightarrow> data (reheap k v hdr g) = data (reheap k v hdr h)"
  by (rule ext) (simp add: data_reheap_at)

lemma linked_at:
  "linked h i (us @ a # vs) \<Longrightarrow> i < len h a \<Longrightarrow>
     forward_at h a i = Inr (find (\<lambda>b. i < len h b) vs)"
  by (induction us) auto

lemma heap_unique:
  assumes h: "sl_inv h hdr ml lvl L" and g: "sl_inv g hdr ml' lvl' L" and eq: "data g = data h"
  shows "g = h"
proof
  fix a
  show "g a = h a"
  proof (cases "a \<in> set (hdr # L)")
    case False
    then have "a \<notin> dom g" "a \<notin> dom h" using h g by (simp_all add: sl_inv_def)
    then show ?thesis by (simp add: domIff)
  next
    case True
    then obtain us vs where sp: "hdr # L = us @ a # vs" by (meson split_list)
    have "a \<in> dom h" using True h by (simp only: sl_inv_def)
    then obtain n where n: "h a = Some n" by (auto simp: domIff)
    from data_at [OF eq, of a] n obtain m where m: "g a = Some m"
      and d: "key' m = key' n" "value' m = value' n" "length (forward' m) = length (forward' n)"
        "node_level' m = node_level' n"
      by (auto simp: data_def)
    have "forward' m = forward' n"
    proof (rule nth_equalityI)
      show "length (forward' m) = length (forward' n)" by (rule d(3))
    next
      fix i assume i: "i < length (forward' m)"
      have lh: "i < len h a" using i d(3) n by (simp add: len_def)
      have lg: "i < len g a" using i m by (simp add: len_def)
      have 1: "linked h i (us @ a # vs)" using h sp by (simp add: sl_inv_def)
      have 2: "linked g i (us @ a # vs)" using g sp by (simp add: sl_inv_def)
      have "(\<lambda>b. i < len g b) = (\<lambda>b. i < len h b)" using data_len [OF eq] by simp
      then have "forward_at g a i = forward_at h a i"
        using linked_at [OF 1 lh] linked_at [OF 2 lg] by simp
      then show "forward' m ! i = forward' n ! i"
        using i d(3) n m by (simp add: forward_at_def)
    qed
    then have "m = n" using d by simp
    then show ?thesis using n m by simp
  qed
qed

lemma xsf_inv_rehead:
  assumes "xsf_inv s L"
  shows "xsf_inv (rehead k v s) L"
proof -
  note sl = xsf_inv_sl [OF assms]
  have 1: "sl_inv (cells (rehead k v s)) (header' s) (unat (max_level' s)) (unat (skip_list_level' s)) L"
    using sl_inv_reheap [OF sl, of k v] by (simp add: rehead_def)
  have 2: "\<forall>a n. cells (rehead k v s) a = Some n \<longrightarrow> length (forward' n) = Suc (unat (node_level' n))"
    using assms by (auto simp: xsf_inv_def rehead_def reheap_def split: if_splits)
  have 3: "dom (cells (rehead k v s)) = dom (cells s)" by (simp add: rehead_def dom_reheap)
  have 4: "header' (rehead k v s) = header' s" "max_level' (rehead k v s) = max_level' s"
    "skip_list_level' (rehead k v s) = skip_list_level' s" "next_addr (rehead k v s) = next_addr s"
    "element_count' (rehead k v s) = element_count' s"
    by (simp_all add: rehead_def)
  show ?thesis using assms 1 2 unfolding xsf_inv_def 3 4 by simp
qed

lemma header_not_in:
  "xsf_inv s L \<Longrightarrow> header' s \<notin> set L"
  by (simp add: xsf_inv_def sl_inv_def)

lemma get_rehead:
  assumes "xsf_inv s L"
  shows "get key (rehead k v s) = get key s"
  using get_spec [OF assms, of key] get_spec [OF xsf_inv_rehead [OF assms, of k v], of key]
    abs_map_reheap [OF header_not_in [OF assms], of k v "cells s"]
  by (simp add: rehead_def)

lemma rehead_fields:
  "header' (rehead k v s) = header' s" "max_level' (rehead k v s) = max_level' s"
  "skip_list_level' (rehead k v s) = skip_list_level' s" "next_addr (rehead k v s) = next_addr s"
  "element_count' (rehead k v s) = element_count' s" "room (rehead k v s) = room s"
  "gen' (rehead k v s) = gen' s" "cells (rehead k v s) = reheap k v (header' s) (cells s)"
  by (simp_all add: rehead_def)

lemma get_random_level_rehead:
  "get_random_level s = (nl, s1) \<Longrightarrow> get_random_level (rehead k v s) = (nl, rehead k v s1)"
  by (auto simp: get_random_level_def rehead_def split: prod.splits)

lemma put_rehead:
  fixes s :: "('k::linorder, 'v) XSFSkipList"
  assumes inv: "xsf_inv s L"
  shows "put key val (rehead k v s)
     = map_option (map_sum (apsnd (rehead k v)) (rehead k v)) (put key val s)"
proof -
  let ?t = "rehead k v s"
  let ?hdr = "header' s"
  note invt = xsf_inv_rehead [OF inv, of k v]
  note nin = header_not_in [OF inv]
  have hit: "hit (cells ?t) L key = hit (cells s) L key"
    by (simp add: rehead_fields hit_reheap [OF nin])
  have tr: "trail (cells ?t) (header' ?t) L key (unat (skip_list_level' ?t)) (Suc (unat (max_level' ?t)))
      = trail (cells s) ?hdr L key (unat (skip_list_level' s)) (Suc (unat (max_level' s)))"
    by (simp add: rehead_fields trail_reheap [OF nin])
  show ?thesis
  proof (cases "hit (cells s) L key")
    case (Some c)
    then have c: "c \<noteq> ?hdr" using hit_mem [of "cells s" L key c] nin by auto
    have "?t\<lparr>cells := (cells ?t)(c := map_option (value'_update (\<lambda>_. val)) (cells ?t c))\<rparr>
        = rehead k v (s\<lparr>cells := (cells s)(c := map_option (value'_update (\<lambda>_. val)) (cells s c))\<rparr>)"
      using c by (simp add: rehead_def reheap_def fun_upd_twist)
    then show ?thesis
      using put_search [OF inv, of key val] put_search [OF invt, of key val] hit Some by simp
  next
    case None
    obtain nl s1 where grl: "get_random_level s = (nl, s1)" by (cases "get_random_level s")
    note grlt = get_random_level_rehead [OF grl, of k v]
    have Nonet: "hit (cells ?t) L key = None" using hit None by simp
    note sp = insert_node_spec [OF inv None grl, of val]
    note spt = insert_node_spec [OF invt Nonet grlt, of val, unfolded tr]
    have ps: "put key val s = insert_node key val
        (trail (cells s) ?hdr L key (unat (skip_list_level' s)) (Suc (unat (max_level' s)))) s"
      using put_search [OF inv, of key val] None by simp
    have pt: "put key val ?t = insert_node key val
        (trail (cells s) ?hdr L key (unat (skip_list_level' s)) (Suc (unat (max_level' s)))) ?t"
      using put_search [OF invt, of key val] Nonet tr by simp
    have rs: "raised (rehead k v s1) nl = rehead k v (raised s1 nl)"
      by (simp add: raised_def rehead_def)
    consider (wrap) "unat nl = 255" | (full) "unat nl \<noteq> 255" "room s = 0"
      | (ok) "unat nl \<noteq> 255" "room s \<noteq> 0" by blast
    then show ?thesis
    proof cases
      case wrap
      then show ?thesis using sp(1) spt(1) ps pt by simp
    next
      case full
      then show ?thesis using sp(2) spt(2) ps pt rs by (simp add: rehead_fields)
    next
      case ok
      let ?new = "next_addr s"
      let ?nd = "\<lparr>key' = key, value' = val, forward' = replicate (Suc (unat nl)) (None :: addr option),
          node_level' = nl\<rparr>"
      let ?L' = "inserted (cells s) L key ?new"
      let ?lvl = "max (unat (skip_list_level' s)) (unat nl)"
      from sp(3) ok obtain g where
        g: "insert_node key val
              (trail (cells s) ?hdr L key (unat (skip_list_level' s)) (Suc (unat (max_level' s)))) s
            = Some (Inr ((raised s1 nl)\<lparr>cells := g, next_addr := Suc (next_addr s),
                     room := room s - 1, element_count' := element_count' s + 1\<rparr>))"
        and dg: "data g = data ((cells s)(?new \<mapsto> ?nd))"
        and ig: "sl_inv g ?hdr (unat (max_level' s)) ?lvl ?L'" by blast
      from spt(3) ok obtain g' where
        g': "insert_node key val
              (trail (cells s) ?hdr L key (unat (skip_list_level' s)) (Suc (unat (max_level' s)))) ?t
            = Some (Inr ((raised (rehead k v s1) nl)\<lparr>cells := g', next_addr := Suc (next_addr s),
                     room := room s - 1, element_count' := element_count' s + 1\<rparr>))"
        and dg': "data g' = data ((reheap k v ?hdr (cells s))(?new \<mapsto> ?nd))"
        and ig': "sl_inv g' ?hdr (unat (max_level' s)) ?lvl ?L'"
        by (auto simp: rehead_fields inserted_reheap [OF nin])
      have fresh: "?new \<noteq> ?hdr" using inv by (auto simp: xsf_inv_def sl_inv_def)
      have "(reheap k v ?hdr (cells s))(?new \<mapsto> ?nd) = reheap k v ?hdr ((cells s)(?new \<mapsto> ?nd))"
        using fresh by (simp add: reheap_def fun_upd_twist)
      then have "data g' = data (reheap k v ?hdr g)" using dg' data_reheap [OF dg, of k v ?hdr] by simp
      from heap_unique [OF sl_inv_reheap [OF ig, of k v] ig' this]
      have "g' = reheap k v ?hdr g" .
      then have "(raised (rehead k v s1) nl)\<lparr>cells := g', next_addr := Suc (next_addr s),
                     room := room s - 1, element_count' := element_count' s + 1\<rparr>
          = rehead k v ((raised s1 nl)\<lparr>cells := g, next_addr := Suc (next_addr s),
                     room := room s - 1, element_count' := element_count' s + 1\<rparr>)"
        using get_random_level_state [of s] grl by (auto simp: raised_def rehead_def)
      then show ?thesis using g g' ps pt by simp
    qed
  qed
qed

lemma data_drop: "data (h(c := None)) = (data h)(c := None)"
  by (rule ext) (simp add: data_def)

lemma remove_rehead:
  fixes s :: "('k::linorder, 'v) XSFSkipList"
  assumes inv: "xsf_inv s L"
  shows "remove key (rehead k v s)
     = map_option (map_sum (apsnd (rehead k v)) (rehead k v)) (remove key s)"
proof -
  let ?t = "rehead k v s"
  let ?hdr = "header' s"
  note invt = xsf_inv_rehead [OF inv, of k v]
  note nin = header_not_in [OF inv]
  have hit: "hit (cells ?t) L key = hit (cells s) L key"
    by (simp add: rehead_fields hit_reheap [OF nin])
  show ?thesis
  proof (cases "hit (cells s) L key")
    case None
    then show ?thesis using remove_spec(1) [OF inv, of key] remove_spec(1) [OF invt, of key] hit by simp
  next
    case (Some c)
    then have c: "c \<noteq> ?hdr" using hit_mem [of "cells s" L key c] nin by auto
    let ?L' = "removed (cells s) L key"
    let ?lvl = "unat (skip_list_level' s)"
    from remove_spec(2) [OF inv, of key c] Some obtain g where
      g: "remove key s = Some (Inr (s\<lparr>cells := g(c := None),
               skip_list_level' := of_nat (lowered (g(c := None)) ?L' ?lvl),
               room := room s + 1, element_count' := element_count' s - 1\<rparr>))"
      and dg: "data g = data (cells s)"
      and ig: "sl_inv (g(c := None)) ?hdr (unat (max_level' s)) ?lvl ?L'" by blast
    from remove_spec(2) [OF invt, of key c] Some hit obtain g' where
      g': "remove key ?t = Some (Inr (?t\<lparr>cells := g'(c := None),
               skip_list_level' := of_nat (lowered (g'(c := None)) ?L' ?lvl),
               room := room s + 1, element_count' := element_count' s - 1\<rparr>))"
      and dg': "data g' = data (reheap k v ?hdr (cells s))"
      and ig': "sl_inv (g'(c := None)) ?hdr (unat (max_level' s)) ?lvl ?L'"
      by (auto simp: rehead_fields removed_reheap [OF nin])
    have tw: "reheap k v ?hdr (g(c := None)) = (reheap k v ?hdr g)(c := None)"
      using c by (simp add: reheap_def fun_upd_twist)
    have "data (g'(c := None)) = data (reheap k v ?hdr (g(c := None)))"
      unfolding tw data_drop using dg' data_reheap [OF dg, of k v ?hdr] by simp
    from heap_unique [OF sl_inv_reheap [OF ig, of k v] ig' this]
    have e: "g'(c := None) = reheap k v ?hdr (g(c := None))" .
    have "?t\<lparr>cells := g'(c := None),
               skip_list_level' := of_nat (lowered (g'(c := None)) ?L' ?lvl),
               room := room s + 1, element_count' := element_count' s - 1\<rparr>
        = rehead k v (s\<lparr>cells := g(c := None),
               skip_list_level' := of_nat (lowered (g(c := None)) ?L' ?lvl),
               room := room s + 1, element_count' := element_count' s - 1\<rparr>)"
      unfolding e lowered_reheap by (simp add: rehead_def)
    then show ?thesis using g g' by simp
  qed
qed

lemma run_rehead:
  fixes s :: "('k::linorder, 'v) XSFSkipList"
  assumes "xsf_inv s L"
  shows "run ops (rehead k v s) = map_option (map_sum (apsnd (rehead k v)) (rehead k v)) (run ops s)"
  using assms
proof (induction ops arbitrary: s L)
  case Nil
  show ?case by simp
next
  case (Cons x ops)
  show ?case
  proof (cases x)
    case (Put key val)
    show ?thesis
    proof (cases "put key val s")
      case None
      then show ?thesis using put_rehead [OF Cons.prems, of key val k v] Put by simp
    next
      case (Some r)
      show ?thesis
      proof (cases r)
        case (Inl e)
        then show ?thesis using put_rehead [OF Cons.prems, of key val k v] Put Some by simp
      next
        case (Inr s')
        from put_step(1) [OF Cons.prems, of key val s'] Some Inr
        obtain L' where "xsf_inv s' L'" by auto
        from Cons.IH [OF this] show ?thesis
          using put_rehead [OF Cons.prems, of key val k v] Put Some Inr by simp
      qed
    qed
  next
    case (Get key)
    show ?thesis
      using get_rehead [OF Cons.prems, of key k v] get_spec [OF Cons.prems, of key]
        Cons.IH [OF Cons.prems] Get by simp
  next
    case (Remove key)
    from remove_step [OF Cons.prems, of key] obtain s' L' where
      r: "remove key s = Some (Inr s')" and "xsf_inv s' L'" by blast
    from Cons.IH [OF this(2)] show ?thesis
      using remove_rehead [OF Cons.prems, of key k v] Remove r by simp
  qed
qed

lemma XSFSkipList_rehead:
  "XSFSkipList mt19937 free k1 v1 max_level seed
     = map_sum id (rehead k1 v1) (XSFSkipList mt19937 free k0 v0 max_level seed)"
  by (simp add: XSFSkipList_def new_Node_def rehead_def reheap_def)

text \<open>
  Claim C10. The header's placeholder key and value are never read. Construct the list
  with placeholders \<open>k1\<close>, \<open>v1\<close> instead of \<open>k0\<close>, \<open>v0\<close>: the constructor returns the same
  state but for the two header fields, every sequence of put, get and remove then ends
  the same way (returning, throwing, or not returning) in the same state but for the two
  header fields, and every \<open>get\<close> returns the same. In particular the placeholder key
  \<open>k0\<close> is a key like any other: \<open>get k0\<close> returns the value of the latest \<open>put k0 v\<close> that
  no \<open>remove k0\<close> follows.
\<close>

theorem header_placeholder_never_read:
  fixes s0 :: "('k::linorder, 'v) XSFSkipList"
  assumes "XSFSkipList mt19937 free k0 v0 max_level seed = Inr s0"
  shows "XSFSkipList mt19937 free k1 v1 max_level seed = Inr (rehead k1 v1 s0) \<and>
         run ops (rehead k1 v1 s0)
           = map_option (map_sum (apsnd (rehead k1 v1)) (rehead k1 v1)) (run ops s0) \<and>
         (\<forall>s. run ops s0 = Some (Inr s) \<longrightarrow>
              get key (rehead k1 v1 s) = get key s \<and>
              get k0 s = Some (Inr (latest k0 (rev ops))))"
proof (intro conjI allI impI)
  note init = XSFSkipList_inv [OF assms]
  show "XSFSkipList mt19937 free k1 v1 max_level seed = Inr (rehead k1 v1 s0)"
    using XSFSkipList_rehead [of mt19937 free k1 v1 max_level seed k0 v0] assms by simp
  show "run ops (rehead k1 v1 s0)
      = map_option (map_sum (apsnd (rehead k1 v1)) (rehead k1 v1)) (run ops s0)"
    by (rule run_rehead [OF init(1)])
  fix s assume "run ops s0 = Some (Inr s)"
  from run_inv [OF init(1) this] obtain L where
    L: "xsf_inv s L" "abs_map (cells s) L = fold effect ops (abs_map (cells s0) [])" by blast
  show "get key (rehead k1 v1 s) = get key s" by (rule get_rehead [OF L(1)])
  show "get k0 s = Some (Inr (latest k0 (rev ops)))"
    using get_spec [OF L(1), of k0] L(2) init(2) fold_effect_latest [of ops k0] by simp
qed

theorem header_placeholder_never_read_witness:
  "XSFSkipList two_heads_in_three 8 (0 :: int) (0 :: int) 4 42 \<noteq> Inl BadAlloc \<and>
   (\<exists>s. run [Put 0 10, Put 5 50, Remove 0, Put 0 11]
          (projr (XSFSkipList two_heads_in_three 8 (0 :: int) (0 :: int) 4 42)) = Some (Inr s) \<and>
        run [Put 0 10, Put 5 50, Remove 0, Put 0 11]
          (projr (XSFSkipList two_heads_in_three 8 (9 :: int) (9 :: int) 4 42))
          = Some (Inr (rehead 9 9 s)) \<and>
        get 0 s = Some (Inr (Some 11)) \<and> get 0 (rehead 9 9 s) = Some (Inr (Some 11)))"
proof -
  obtain s0 :: "(int, int) XSFSkipList" where
    s0: "XSFSkipList two_heads_in_three 8 0 0 4 42 = Inr s0"
    by (simp add: XSFSkipList_def new_Node_def)
  let ?ops = "[Put 0 10, Put 5 50, Remove 0, Put 0 11] :: (int, int) operation list"
  note init = XSFSkipList_inv [OF s0]
  have "unat (max_level' s0) < 255" "length ?ops \<le> room s0" using init(3,4) by simp_all
  from run_total [OF init(1) this] obtain s where s: "run ?ops s0 = Some (Inr s)" by blast
  note th = header_placeholder_never_read [OF s0, of 9 9 ?ops 0]
  have 1: "XSFSkipList two_heads_in_three 8 (9 :: int) (9 :: int) 4 42 = Inr (rehead 9 9 s0)"
    using th by simp
  have 2: "run ?ops (rehead 9 9 s0) = Some (Inr (rehead 9 9 s))" using th s by simp
  have 3: "get 0 (rehead 9 9 s) = get 0 s" "get 0 s = Some (Inr (latest 0 (rev ?ops)))"
    using th s by simp_all
  show ?thesis using s0 s 1 2 3 by simp
qed

lemma delete_Node_rest:
  assumes "cells st a = Some n" "a \<notin> S"
  shows "delete_Node a (st\<lparr>cells := cells st |` (- S), room := r\<rparr>)
     = Inr (st\<lparr>cells := cells st |` (- insert a S), room := Suc r\<rparr>)"
proof -
  let ?st = "st\<lparr>cells := cells st |` (- S), room := r\<rparr>"
  have 1: "cells ?st a = Some n" using assms by (simp add: restrict_map_def)
  have 2: "?st\<lparr>cells := (cells ?st)(a := None), room := room ?st + 1\<rparr>
      = st\<lparr>cells := cells st |` (- insert a S), room := Suc r\<rparr>"
    by (simp add: fun_eq_iff restrict_map_def)
  have "delete_Node a ?st = Inr (?st\<lparr>cells := (cells ?st)(a := None), room := room ?st + 1\<rparr>)"
    unfolding delete_Node_def 1 by simp
  then show ?thesis unfolding 2 .
qed

lemma level0_next:
  assumes "linked h 0 (a # as)" "\<forall>b\<in>set (a # as). 0 < len h b"
  shows "forward_at h a 0 = Inr (case as of [] \<Rightarrow> None | b # bs \<Rightarrow> Some b)"
  using assms by (cases as) auto

lemma clear_chain:
  assumes "linked (cells st) 0 (a # as)" "\<forall>b\<in>set (a # as). 0 < len (cells st) b" "distinct (a # as)"
    and "length as < stack"
  shows "clear stack a st = Inr (rev (a # as),
           st\<lparr>cells := cells st |` (- set (a # as)), room := room st + Suc (length as)\<rparr>)"
  using assms
proof (induction as arbitrary: a stack)
  case Nil
  then obtain k where k: "stack = Suc k" by (cases stack) auto
  from Nil obtain n where n: "cells st a = Some n" by (auto simp: len_def split: option.splits)
  have fw: "forward_at (cells st) a 0 = Inr None" using level0_next [OF Nil(1,2)] by simp
  have "(cells st)(a := None) = cells st |` (- {a})" by (auto simp: fun_eq_iff restrict_map_def)
  then show ?case unfolding k by (simp add: fw delete_Node_def n)
next
  case (Cons b bs)
  then obtain k where k: "stack = Suc k" "length bs < k" by (cases stack) auto
  from Cons.prems obtain n where n: "cells st a = Some n" by (auto simp: len_def split: option.splits)
  have fw: "forward_at (cells st) a 0 = Inr (Some b)" using level0_next [OF Cons.prems(1,2)] by simp
  have ih: "clear k b st = Inr (rev (b # bs),
           st\<lparr>cells := cells st |` (- set (b # bs)), room := room st + Suc (length bs)\<rparr>)"
    using Cons.prems k(2) by (intro Cons.IH) simp_all
  have "a \<notin> set (b # bs)" using Cons.prems(3) by simp
  from delete_Node_rest [OF n this, of "room st + Suc (length bs)"]
  have del: "delete_Node a (st\<lparr>cells := cells st |` (- set (b # bs)), room := room st + Suc (length bs)\<rparr>)
      = Inr (st\<lparr>cells := cells st |` (- set (a # b # bs)), room := room st + Suc (length (b # bs))\<rparr>)"
    by simp
  show ?case
    unfolding k(1) clear.simps
    by (simp only: fw ih del sum.case option.case prod.case rev.simps length_Cons)
qed

lemma clear_overflow:
  assumes "linked (cells st) 0 (a # as)" "\<forall>b\<in>set (a # as). 0 < len (cells st) b"
    and "stack \<le> length as"
  shows "clear stack a st = Inl StackOverflow"
  using assms
proof (induction as arbitrary: a stack)
  case Nil
  then show ?case by simp
next
  case (Cons b bs)
  show ?case
  proof (cases stack)
    case 0
    then show ?thesis by simp
  next
    case (Suc k)
    have fw: "forward_at (cells st) a 0 = Inr (Some b)" using level0_next [OF Cons.prems(1,2)] by simp
    have "clear k b st = Inl StackOverflow"
      using Cons.prems Suc by (intro Cons.IH) simp_all
    then show ?thesis unfolding Suc by (simp add: fw)
  qed
qed

lemma destructor_spec:
  assumes "xsf_inv s L"
  shows "length L \<le> stack \<longrightarrow>
           XSFSkipList_destructor stack s = Inr (rev L @ [header' s],
             s\<lparr>cells := Map.empty, room := room s + Suc (length L)\<rparr>)"
    and "stack < length L \<longrightarrow> XSFSkipList_destructor stack s = Inl StackOverflow"
proof -
  note sl = xsf_inv_sl [OF assms]
  have lens: "\<forall>a\<in>set L. 0 < len (cells s) a" using sl by (simp add: sl_inv_def)
  have lk: "linked (cells s) 0 L" and d: "distinct L" and hn: "header' s \<notin> set L"
    and dom: "dom (cells s) = set (header' s # L)"
    using sl by (simp_all add: sl_inv_def)
  have "header' s \<in> dom (cells s)" using dom by simp
  then obtain n where n: "cells s (header' s) = Some n" by (auto simp: domIff)
  have fw: "forward_at (cells s) (header' s) 0 = Inr (case L of [] \<Rightarrow> None | b # bs \<Rightarrow> Some b)"
    using hdr_forward [OF sl, of 0] lens by (cases L) auto
  show "length L \<le> stack \<longrightarrow>
           XSFSkipList_destructor stack s = Inr (rev L @ [header' s],
             s\<lparr>cells := Map.empty, room := room s + Suc (length L)\<rparr>)"
  proof (cases L)
    case Nil
    have "(cells s)(header' s := None) = Map.empty" using dom Nil by (auto simp: fun_eq_iff domIff)
    then show ?thesis using Nil fw n by (simp add: XSFSkipList_destructor_def delete_Node_def)
  next
    case (Cons a as)
    show ?thesis
    proof
      assume "length L \<le> stack"
      then have st: "length as < stack" using Cons by simp
      have c: "clear stack a s = Inr (rev (a # as),
           s\<lparr>cells := cells s |` (- set (a # as)), room := room s + Suc (length as)\<rparr>)"
        using lk lens d st unfolding Cons by (rule clear_chain)
      have "header' s \<notin> set (a # as)" using hn Cons by simp
      from delete_Node_rest [OF n this, of "room s + Suc (length as)"]
      have del: "delete_Node (header' s) (s\<lparr>cells := cells s |` (- set (a # as)), room := room s + Suc (length as)\<rparr>)
          = Inr (s\<lparr>cells := cells s |` (- set (header' s # a # as)), room := Suc (room s + Suc (length as))\<rparr>)"
        by simp
      have "\<And>x. x \<notin> set (header' s # L) \<Longrightarrow> cells s x = None" using dom by (metis domIff)
      then have e: "cells s |` (- set (header' s # a # as)) = Map.empty"
        unfolding Cons by (auto simp: fun_eq_iff restrict_map_def)
      have fw': "forward_at (cells s) (header' s) 0 = Inr (Some a)" using fw Cons by simp
      have hs: "header' (s\<lparr>cells := cells s |` (- set (a # as)), room := room s + Suc (length as)\<rparr>) = header' s"
        by simp
      have "XSFSkipList_destructor stack s = Inr (rev (a # as) @ [header' s],
          s\<lparr>cells := Map.empty, room := Suc (room s + Suc (length as))\<rparr>)"
        unfolding XSFSkipList_destructor_def
        by (simp only: fw' c del e hs sum.case option.case prod.case)
      then show "XSFSkipList_destructor stack s = Inr (rev L @ [header' s],
             s\<lparr>cells := Map.empty, room := room s + Suc (length L)\<rparr>)"
        using Cons by simp
    qed
  qed
  show "stack < length L \<longrightarrow> XSFSkipList_destructor stack s = Inl StackOverflow"
  proof
    assume a: "stack < length L"
    then obtain a as where Cons: "L = a # as" by (cases L) auto
    have 1: "linked (cells s) 0 (a # as)" using lk Cons by simp
    have 2: "\<forall>b\<in>set (a # as). 0 < len (cells s) b" using lens Cons by simp
    have 3: "stack \<le> length as" using a Cons by simp
    have "clear stack a s = Inl StackOverflow" by (rule clear_overflow [OF 1 2 3])
    moreover have "forward_at (cells s) (header' s) 0 = Inr (Some a)" using fw Cons by simp
    ultimately show "XSFSkipList_destructor stack s = Inl StackOverflow"
      by (simp add: XSFSkipList_destructor_def)
  qed
qed

text \<open>
  Claim C7, as the code has it. Teardown is the recursion \<open>clear\<close> along level 0, which
  deletes a node after the nodes behind it, so it needs one activation of \<open>clear\<close> on the
  call stack for every element of the list. When the call stack has room for that many,
  teardown returns and has released every node: the store is empty and has all its room
  back, the elements were released in reverse level-0 order and the header last. When the
  list has more elements than the call stack has room for activations, teardown overflows
  the call stack.
\<close>

theorem teardown_releases_every_node:
  fixes s0 :: "('k::linorder, 'v) XSFSkipList"
  assumes "XSFSkipList mt19937 free k0 v0 max_level seed = Inr s0"
    and "run ops s0 = Some (Inr s)"
  shows "\<exists>ks. level0_keys s = Some (Inr ks) \<and>
           (stack < length ks \<longrightarrow> XSFSkipList_destructor stack s = Inl StackOverflow) \<and>
           (length ks \<le> stack \<longrightarrow>
              (\<exists>freed s'. XSFSkipList_destructor stack s = Inr (freed, s') \<and>
                 cells s' = Map.empty \<and> room s' = free \<and>
                 set freed = dom (cells s) \<and> distinct freed \<and>
                 map (nkey (cells s)) (butlast freed) = rev ks \<and> last freed = header' s))"
proof -
  note init = XSFSkipList_inv [OF assms(1)]
  from run_inv [OF init(1) assms(2)] obtain L where
    L: "xsf_inv s L" "length L + room s = length ([] :: addr list) + room s0" by blast
  note sl = xsf_inv_sl [OF L(1)]
  let ?ks = "map (nkey (cells s)) L"
  let ?freed = "rev L @ [header' s]"
  let ?s' = "s\<lparr>cells := Map.empty, room := room s + Suc (length L)\<rparr>"
  have 1: "level0_keys s = Some (Inr ?ks)" using L(1) by (rule level0_keys_inv)
  have 2: "stack < length ?ks \<longrightarrow> XSFSkipList_destructor stack s = Inl StackOverflow"
    using destructor_spec(2) [OF L(1), of stack] by simp
  have 3: "room ?s' = free" using L(2) init(4,5) by simp
  have 4: "set ?freed = dom (cells s)" "distinct ?freed" using sl by (auto simp: sl_inv_def)
  have 5: "map (nkey (cells s)) (butlast ?freed) = rev ?ks" by (simp add: rev_map)
  have 6: "length ?ks \<le> stack \<longrightarrow>
      (\<exists>freed s'. XSFSkipList_destructor stack s = Inr (freed, s') \<and>
         cells s' = Map.empty \<and> room s' = free \<and>
         set freed = dom (cells s) \<and> distinct freed \<and>
         map (nkey (cells s)) (butlast freed) = rev ?ks \<and> last freed = header' s)"
  proof
    assume "length ?ks \<le> stack"
    then have "XSFSkipList_destructor stack s = Inr (?freed, ?s')"
      using destructor_spec(1) [OF L(1), of stack] by simp
    then show "\<exists>freed s'. XSFSkipList_destructor stack s = Inr (freed, s') \<and>
         cells s' = Map.empty \<and> room s' = free \<and>
         set freed = dom (cells s) \<and> distinct freed \<and>
         map (nkey (cells s)) (butlast freed) = rev ?ks \<and> last freed = header' s"
      using 3 4 5 by (intro exI [of _ ?freed] exI [of _ ?s']) simp
  qed
  show ?thesis using 1 2 6 by (intro exI [of _ ?ks]) simp
qed

theorem teardown_releases_every_node_witness:
  "XSFSkipList two_heads_in_three 8 (0 :: int) (0 :: int) 4 42 \<noteq> Inl BadAlloc \<and>
   (\<exists>s. run [Put 3 30, Put 1 10, Put 2 20]
          (projr (XSFSkipList two_heads_in_three 8 (0 :: int) (0 :: int) 4 42)) = Some (Inr s) \<and>
      (2 :: nat) < length [1, 2, 3 :: int] \<and> XSFSkipList_destructor 2 s = Inl StackOverflow \<and>
      length [1, 2, 3 :: int] \<le> (3 :: nat) \<and>
      (\<exists>freed s'. XSFSkipList_destructor 3 s = Inr (freed, s') \<and> cells s' = Map.empty \<and>
         room s' = 8 \<and> map (nkey (cells s)) (butlast freed) = [3, 2, 1]))"
proof -
  obtain s0 :: "(int, int) XSFSkipList" where
    s0: "XSFSkipList two_heads_in_three 8 0 0 4 42 = Inr s0"
    by (simp add: XSFSkipList_def new_Node_def)
  let ?ops = "[Put 3 30, Put 1 10, Put 2 20] :: (int, int) operation list"
  note init = XSFSkipList_inv [OF s0]
  have "unat (max_level' s0) < 255" "length ?ops \<le> room s0" using init(3,4) by simp_all
  from run_total [OF init(1) this] obtain s where s: "run ?ops s0 = Some (Inr s)" by blast
  have "Option.bind (returned (run ?ops (projr (XSFSkipList two_heads_in_three 8 0 0 4 42)))) level0_keys
      = Some (Inr [1, 2, 3])"
    by code_simp
  then have ks: "level0_keys s = Some (Inr [1, 2, 3])" using s0 s by (simp add: returned_def)
  from teardown_releases_every_node [OF s0 s, of 2] ks
  have over: "XSFSkipList_destructor 2 s = Inl StackOverflow" by auto
  from teardown_releases_every_node [OF s0 s, of 3] ks obtain freed s' where
    "XSFSkipList_destructor 3 s = Inr (freed, s')" "cells s' = Map.empty" "room s' = 8"
    "map (nkey (cells s)) (butlast freed) = [3, 2, 1]"
    by auto
  then show ?thesis using s0 s over by auto
qed

text \<open>
  Claim C7 as stated fails. A list of three elements is torn down when the call stack
  has room for three activations of \<open>clear\<close>, and its elements, whose keys are 1, 2, 3
  in level-0 order, are deleted in the order 3, 2, 1; with room for two activations the
  same teardown overflows the call stack, although that is room enough to tear down a
  list of two elements. The stack that teardown needs grows with the number of elements.
\<close>

theorem teardown_counterexample:
  "Option.bind (returned (run [Put 1 10, Put 2 20, Put 3 30]
         (projr (XSFSkipList two_heads_in_three 8 (0 :: int) (0 :: int) 4 42))))
       level0_keys
     = Some (Inr [1, 2, 3]) \<and>
   Option.bind (returned (run [Put 1 10, Put 2 20, Put 3 30]
         (projr (XSFSkipList two_heads_in_three 8 (0 :: int) (0 :: int) 4 42))))
       (\<lambda>s. Some (map_sum id (\<lambda>r. map (nkey (cells s)) (butlast (fst r)))
                     (XSFSkipList_destructor 3 s)))
     = Some (Inr [3, 2, 1]) \<and>
   Option.bind (returned (run [Put 1 10, Put 2 20, Put 3 30]
         (projr (XSFSkipList two_heads_in_three 8 (0 :: int) (0 :: int) 4 42))))
       (\<lambda>s. Some (map_sum id fst (XSFSkipList_destructor 2 s)))
     = Some (Inl StackOverflow) \<and>
   Option.bind (returned (run [Put 1 10, Put 2 20]
         (projr (XSFSkipList two_heads_in_three 8 (0 :: int) (0 :: int) 4 42))))
       (\<lambda>s. Some (map_sum id (\<lambda>r. map (nkey (cells s)) (butlast (fst r)))
                     (XSFSkipList_destructor 2 s)))
     = Some (Inr [2, 1])"
proof (intro conjI)
  show "Option.bind (returned (run [Put 1 10, Put 2 20, Put 3 30]
         (projr (XSFSkipList two_heads_in_three 8 (0 :: int) (0 :: int) 4 42))))
       level0_keys
     = Some (Inr [1, 2, 3])"
    by code_simp
  show "Option.bind (returned (run [Put 1 10, Put 2 20, Put 3 30]
         (projr (XSFSkipList two_heads_in_three 8 (0 :: int) (0 :: int) 4 42))))
       (\<lambda>s. Some (map_sum id (\<lambda>r. map (nkey (cells s)) (butlast (fst r)))
                     (XSFSkipList_destructor 3 s)))
     = Some (Inr [3, 2, 1])"
    by code_simp
  show "Option.bind (returned (run [Put 1 10, Put 2 20, Put 3 30]
         (projr (XSFSkipList two_heads_in_three 8 (0 :: int) (0 :: int) 4 42))))
       (\<lambda>s. Some (map_sum id fst (XSFSkipList_destructor 2 s)))
     = Some (Inl StackOverflow)"
    by code_simp
  show "Option.bind (returned (run [Put 1 10, Put 2 20]
         (projr (XSFSkipList two_heads_in_three 8 (0 :: int) (0 :: int) 4 42))))
       (\<lambda>s. Some (map_sum id (\<lambda>r. map (nkey (cells s)) (butlast (fst r)))
                     (XSFSkipList_destructor 2 s)))
     = Some (Inr [2, 1])"
    by code_simp
qed

text \<open>
  Claim C8 on the code. A thread that does not hold the mutex and calls \<open>put\<close> or
  \<open>remove\<close> touches the structure only between acquiring and releasing it; one that calls
  \<open>get\<close> or \<open>size\<close> touches the structure without holding it.
\<close>

theorem get_and_size_take_no_lock:
  "guarded False (events Member_put) \<and> guarded False (events Member_remove) \<and>
   \<not> guarded False (events Member_get) \<and> \<not> guarded False (events Member_size)"
  by simp




































































end
